theory Spec2Isabelle
  imports Complex_Main "HOL-Library.Multiset" "HOL-Library.Signed_Division" "HOL-Library.Log_Nat"
begin

section \<open>The optimal-stopping simulator (stoppingGame.ts)\<close>

text \<open>
  The program lives in the second document of \<^verbatim>\<open>src/seeds/src/getCategoryLinks.ts\<close>
  (lines 50 to 144): \<^verbatim>\<open>computeF\<close>, \<^verbatim>\<open>thresholds\<close>, \<^verbatim>\<open>simulate\<close>, the worker block and
  the main-thread block.

  Numbers. A JavaScript number is a double. Counts and loop indices (\<^verbatim>\<open>maxPresses\<close>,
  \<^verbatim>\<open>sims\<close>, \<^verbatim>\<open>press\<close>, \<^verbatim>\<open>k\<close>, \<^verbatim>\<open>j\<close>, \<^verbatim>\<open>totalSims\<close>, \<^verbatim>\<open>numWorkers\<close>) are modelled as
  \<^typ>\<open>int\<close>, and the loop counters count exactly. Prizes, thresholds, draws and sums
  are modelled as \<^typ>\<open>real\<close>.

  Rounding. The result of a double operation is the exact result rounded to the nearest
  double (\<open>fl\<close> below). The rounding is modelled in \<^verbatim>\<open>simulate\<close> (the draw
  \<^verbatim>\<open>Math.random() * prize\<close> and the running sum \<^verbatim>\<open>winnings += draw\<close>) and in the work
  distribution (the quotient \<^verbatim>\<open>totalSims / numWorkers\<close> and the sum
  \<^verbatim>\<open>simsPerWorker + extra\<close>). The threshold recurrence of \<^verbatim>\<open>computeF\<close> and
  \<^verbatim>\<open>thresholds\<close> and the sum \<^verbatim>\<open>grandTotal += sub\<close> of the main thread are modelled in
  exact arithmetic. The final division \<^verbatim>\<open>grandTotal / totalSims\<close>, which can leave the
  finite numbers, is modelled with its JavaScript result (\<open>NaN\<close>, \<open>Infinity\<close>).
\<close>

subsection \<open>Constants\<close>

definition MAX_PRESSES :: int where
  "MAX_PRESSES = 10"

definition TOP_PRIZE :: real where
  "TOP_PRIZE = 100000"

subsection \<open>Double rounding\<close>

text \<open>
  \<open>rne y\<close> is the integer nearest to \<open>y\<close>, a tie going to the even one. \<open>binade x\<close> is,
  for \<open>x > 0\<close>, the exponent \<open>e\<close> with \<open>2 powi e \<le> x < 2 powi (e + 1)\<close>. \<open>fl x\<close> is \<open>x\<close>
  rounded to 53 significant bits, the precision of a double: to the nearest multiple of
  \<open>2 powi (e - 52)\<close>, ties to even. The exponent is not bounded: overflow to \<open>Infinity\<close>
  (above about \<open>1.8e308\<close>) and gradual underflow (below about \<open>2.2e-308\<close>) are not
  modelled.
\<close>

definition rne :: "real \<Rightarrow> int" where
  "rne y = (let n = \<lfloor>y\<rfloor>; r = y - of_int n
            in if r < 1/2 then n else if 1/2 < r then n + 1
               else if even n then n else n + 1)"

definition binade :: "real \<Rightarrow> int" where
  "binade x = (if 1 \<le> x then bitlen \<lfloor>x\<rfloor> - 1 else - bitlen (\<lceil>1 / x\<rceil> - 1))"

definition fl :: "real \<Rightarrow> real" where
  "fl x = (if x = 0 then 0
           else (let ulp = 2 powi (binade \<bar>x\<bar> - 52) in of_int (rne (x / ulp)) * ulp))"

subsection \<open>computeF\<close>

text \<open>
  \<^verbatim>\<open>const f = [0, 0.5]; for (let j = 2; j <= maxPresses; j++) f.push(0.5 + 0.5 * f[j - 1] ** 2);\<close>
  The loop is the recursion on \<open>j\<close>; the array grows by one element per iteration.
  The read \<^verbatim>\<open>f[j - 1]\<close> is always inside the array (lemma \<open>computeF_loop_read_in_range\<close>).
\<close>

function computeF_loop :: "int \<Rightarrow> int \<Rightarrow> real list \<Rightarrow> real list" where
  "computeF_loop maxPresses j f =
     (if j \<le> maxPresses
      then computeF_loop maxPresses (j + 1) (f @ [0.5 + 0.5 * (f ! nat (j - 1)) ^ 2])
      else f)"
  by pat_completeness auto
termination
  by (relation "measure (\<lambda>(maxPresses, j, f). nat (maxPresses + 1 - j))") auto

declare computeF_loop.simps [simp del]

definition computeF :: "int \<Rightarrow> real list" where
  "computeF maxPresses = computeF_loop maxPresses 2 [0, 0.5]"

subsection \<open>thresholds\<close>

text \<open>
  \<^verbatim>\<open>const f = computeF(maxPresses); const t = [];
  for (let k = maxPresses; k >= 1; k--) t.push(f[k - 1] * prize); return t;\<close>
\<close>

function thresholds_loop :: "real list \<Rightarrow> real \<Rightarrow> int \<Rightarrow> real list \<Rightarrow> real list" where
  "thresholds_loop f prize k t =
     (if k \<ge> 1
      then thresholds_loop f prize (k - 1) (t @ [f ! nat (k - 1) * prize])
      else t)"
  by pat_completeness auto
termination
  by (relation "measure (\<lambda>(f, prize, k, t). nat k)") auto

declare thresholds_loop.simps [simp del]

definition thresholds :: "int \<Rightarrow> real \<Rightarrow> real list" where
  "thresholds maxPresses prize = thresholds_loop (computeF maxPresses) prize maxPresses []"

subsection \<open>simulate\<close>

text \<open>
  \<^verbatim>\<open>Math.random()\<close> is the only effect of \<^verbatim>\<open>simulate\<close>. A worker's random source is the
  sequence \<open>u 0, u 1, ...\<close> of the values its successive calls return; the state threaded
  through the loops is the number of calls made so far.
\<close>

type_synonym rng = "nat \<Rightarrow> real"

text \<open>
  \<^verbatim>\<open>draw >= th[idx]\<close>: a read outside the array gives \<^verbatim>\<open>undefined\<close>, and a comparison with
  \<^verbatim>\<open>undefined\<close> is false.
\<close>

definition ge_at :: "real \<Rightarrow> real list \<Rightarrow> int \<Rightarrow> bool" where
  "ge_at draw th idx \<longleftrightarrow> 0 \<le> idx \<and> nat idx < length th \<and> draw \<ge> th ! nat idx"

text \<open>
  The inner loop of one trial, from press \<open>press\<close> on. It returns the updated
  \<^verbatim>\<open>winnings\<close> and the number of calls of the random source; \<^verbatim>\<open>break\<close> is the return
  without a recursive call, and the loop falling through leaves \<^verbatim>\<open>winnings\<close> as it was.
  The product \<^verbatim>\<open>Math.random() * prize\<close> and the sum \<^verbatim>\<open>winnings += draw\<close> are rounded.
\<close>

function press_loop ::
  "rng \<Rightarrow> real list \<Rightarrow> int \<Rightarrow> real \<Rightarrow> int \<Rightarrow> real \<Rightarrow> nat \<Rightarrow> real \<times> nat" where
  "press_loop u th maxPresses prize press winnings calls =
     (if press \<le> maxPresses
      then (let idx = press - 1;
                draw = fl (u calls * prize);
                stop = (ge_at draw th idx \<or> press = maxPresses)
            in if stop then (fl (winnings + draw), calls + 1)
               else press_loop u th maxPresses prize (press + 1) winnings (calls + 1))
      else (winnings, calls))"
  by pat_completeness auto
termination
  by (relation "measure (\<lambda>(u, th, maxPresses, prize, press, winnings, calls).
        nat (maxPresses + 1 - press))") auto

declare press_loop.simps [simp del]

text \<open>The outer loop \<^verbatim>\<open>for (let s = 0; s < sims; s++)\<close>.\<close>

function simulate_loop ::
  "rng \<Rightarrow> int \<Rightarrow> real list \<Rightarrow> int \<Rightarrow> real \<Rightarrow> int \<Rightarrow> real \<Rightarrow> nat \<Rightarrow> real \<times> nat" where
  "simulate_loop u sims th maxPresses prize s winnings calls =
     (if s < sims
      then (case press_loop u th maxPresses prize 1 winnings calls of
              (winnings', calls') \<Rightarrow>
                simulate_loop u sims th maxPresses prize (s + 1) winnings' calls')
      else (winnings, calls))"
  by pat_completeness auto
termination
  by (relation "measure (\<lambda>(u, sims, th, maxPresses, prize, s, winnings, calls).
        nat (sims - s))") auto

declare simulate_loop.simps [simp del]

definition simulate :: "rng \<Rightarrow> int \<Rightarrow> real list \<Rightarrow> int \<Rightarrow> real \<Rightarrow> real" where
  "simulate u sims th maxPresses prize = fst (simulate_loop u sims th maxPresses prize 0 0 0)"

subsection \<open>The worker block\<close>

text \<open>
  \<^verbatim>\<open>const subtotal = simulate(sims, thresholds(maxPresses, prize), maxPresses, prize);
  parentPort!.postMessage(subtotal);\<close>
  A worker posts one message, its subtotal. \<open>u\<close> is the worker's own random source.
\<close>

definition worker :: "rng \<Rightarrow> int \<Rightarrow> int \<Rightarrow> real \<Rightarrow> real" where
  "worker u sims maxPresses prize =
     simulate u sims (thresholds maxPresses prize) maxPresses prize"

subsection \<open>The main-thread block\<close>

text \<open>
  \<^verbatim>\<open>const simsPerWorker = Math.floor(totalSims / numWorkers);
  const extra = totalSims % numWorkers;\<close>
  The quotient is rounded to a double before \<^verbatim>\<open>Math.floor\<close> is taken. \<^verbatim>\<open>%\<close> is the
  remainder of the truncated division (the sign of the dividend); it is exact on doubles.
\<close>

definition simsPerWorker :: "int \<Rightarrow> int \<Rightarrow> int" where
  "simsPerWorker totalSims numWorkers =
     \<lfloor>fl (real_of_int totalSims / real_of_int numWorkers)\<rfloor>"

definition extra :: "int \<Rightarrow> int \<Rightarrow> int" where
  "extra totalSims numWorkers = totalSims smod numWorkers"

text \<open>
  The dispatch loop \<^verbatim>\<open>for (let i = 0; i < numWorkers; i++)\<close> with
  \<^verbatim>\<open>const sims = simsPerWorker + (i === 0 ? extra : 0)\<close>: the list of the \<^verbatim>\<open>sims\<close>
  handed to the workers, in the order they are created. The sum is a double addition,
  so it is rounded. For \<open>numWorkers \<le> 0\<close> the loop body never runs (and
  \<^verbatim>\<open>simsPerWorker\<close>, \<^verbatim>\<open>extra\<close> are never used).
\<close>

function dispatch_loop :: "int \<Rightarrow> int \<Rightarrow> int \<Rightarrow> int list \<Rightarrow> int list" where
  "dispatch_loop totalSims numWorkers i tasks =
     (if i < numWorkers
      then dispatch_loop totalSims numWorkers (i + 1)
             (tasks @ [\<lfloor>fl (real_of_int (simsPerWorker totalSims numWorkers
                        + (if i = 0 then extra totalSims numWorkers else 0)))\<rfloor>])
      else tasks)"
  by pat_completeness auto
termination
  by (relation "measure (\<lambda>(totalSims, numWorkers, i, tasks). nat (numWorkers - i))") auto

declare dispatch_loop.simps [simp del]

definition workerSims :: "int \<Rightarrow> int \<Rightarrow> int list" where
  "workerSims totalSims numWorkers = dispatch_loop totalSims numWorkers 0 []"

text \<open>
  The messages of a run, listed by worker: worker \<open>i\<close> draws from its own source \<open>us i\<close>
  and is started with \<^verbatim>\<open>maxPresses: MAX_PRESSES, prize: TOP_PRIZE\<close>.
\<close>

definition worker_messages :: "(nat \<Rightarrow> rng) \<Rightarrow> int \<Rightarrow> int \<Rightarrow> real list" where
  "worker_messages us totalSims numWorkers =
     map (\<lambda>(i, sims). worker (us i) sims MAX_PRESSES TOP_PRIZE)
       (enumerate 0 (workerSims totalSims numWorkers))"

text \<open>
  The value of a JavaScript division whose operands are finite: \<^verbatim>\<open>0 / 0\<close> is \<open>NaN\<close>,
  \<^verbatim>\<open>x / 0\<close> is an infinity of the sign of \<open>x\<close>.
\<close>

datatype jsnum = Num real | NaN | Infinity | NegInfinity

definition js_div :: "real \<Rightarrow> real \<Rightarrow> jsnum" where
  "js_div x y =
     (if y \<noteq> 0 then Num (x / y)
      else if x = 0 then NaN
      else if x > 0 then Infinity
      else NegInfinity)"

text \<open>
  What the results block prints: the threshold table, \<^verbatim>\<open>totalSims\<close>, \<^verbatim>\<open>numWorkers\<close> and
  \<^verbatim>\<open>mean\<close>. The elapsed time is wall-clock time and is left out.
\<close>

record report =
  rep_thresholds :: "real list"
  rep_totalSims :: int
  rep_numWorkers :: int
  rep_mean :: jsnum

text \<open>
  The mutable variables of the main thread, \<^verbatim>\<open>finished\<close> and \<^verbatim>\<open>grandTotal\<close>, and the
  reports printed so far.
\<close>

record main_state =
  finished :: int
  grandTotal :: real
  printed :: "report list"

definition initial_state :: main_state where
  "initial_state = \<lparr>finished = 0, grandTotal = 0, printed = []\<rparr>"

text \<open>
  The handler \<^verbatim>\<open>.on("message", (sub) => { grandTotal += sub;
  if (++finished === numWorkers) { ... const mean = grandTotal / totalSims; ... } })\<close>.
  Handlers run one at a time on the main thread.
\<close>

definition on_message :: "int \<Rightarrow> int \<Rightarrow> real list \<Rightarrow> real \<Rightarrow> main_state \<Rightarrow> main_state" where
  "on_message totalSims numWorkers th sub st =
     (let st1 = st\<lparr>grandTotal := grandTotal st + sub\<rparr>;
          st2 = st1\<lparr>finished := finished st1 + 1\<rparr>
      in if finished st2 = numWorkers
         then st2\<lparr>printed := printed st2 @
                [\<lparr>rep_thresholds = th, rep_totalSims = totalSims,
                  rep_numWorkers = numWorkers,
                  rep_mean = js_div (grandTotal st2) (real_of_int totalSims)\<rparr>]\<rparr>
         else st2)"

text \<open>
  The main thread after the messages \<open>msgs\<close> have arrived, in this order.
  \<^verbatim>\<open>const th = thresholds()\<close> uses the defaults \<^verbatim>\<open>MAX_PRESSES\<close> and \<^verbatim>\<open>TOP_PRIZE\<close>.
\<close>

definition main_thread :: "int \<Rightarrow> int \<Rightarrow> real list \<Rightarrow> main_state" where
  "main_thread totalSims numWorkers msgs =
     fold (on_message totalSims numWorkers (thresholds MAX_PRESSES TOP_PRIZE)) msgs
       initial_state"

subsection \<open>The recurrence of the specification\<close>

text \<open>
  The specification's \<open>f\<close>: \<open>f(0) = 0\<close>, \<open>f(1) = 0.5\<close>,
  \<open>f(j) = 0.5 * (1 + f(j-1)\<^sup>2)\<close> for \<open>j \<ge> 2\<close>. It is written from the specification's
  words, to be compared with \<open>computeF\<close>.
\<close>

fun f_spec :: "nat \<Rightarrow> real" where
  "f_spec 0 = 0"
| "f_spec (Suc 0) = 0.5"
| "f_spec (Suc (Suc j)) = 0.5 * (1 + (f_spec (Suc j)) ^ 2)"

subsection \<open>The trial of the specification\<close>

text \<open>
  The specification's trial, for presses \<open>1 .. maxPresses\<close>: the trial that starts after
  \<open>calls\<close> calls of the random source stops at press \<open>p\<close> when the draw of press \<open>p\<close>
  reaches the threshold at table index \<open>p - 1\<close> or \<open>p = maxPresses\<close>, and no draw of an
  earlier press reaches its threshold. The draw of press \<open>q\<close> is the value of call
  \<open>calls + q - 1\<close> times the prize.
\<close>

definition stops_at :: "rng \<Rightarrow> real list \<Rightarrow> int \<Rightarrow> real \<Rightarrow> nat \<Rightarrow> int \<Rightarrow> bool" where
  "stops_at u th maxPresses prize calls p \<longleftrightarrow>
     1 \<le> p \<and> p \<le> maxPresses
     \<and> (ge_at (fl (u (calls + nat (p - 1)) * prize)) th (p - 1) \<or> p = maxPresses)
     \<and> (\<forall>q \<in> {1..<p}. \<not> ge_at (fl (u (calls + nat (q - 1)) * prize)) th (q - 1))"

text \<open>
  A run of trials, given by the list \<open>ps\<close> of the presses at which they stop: each trial
  starts where the one before it stopped.
\<close>

fun first_stops :: "rng \<Rightarrow> real list \<Rightarrow> int \<Rightarrow> real \<Rightarrow> nat \<Rightarrow> int list \<Rightarrow> bool" where
  "first_stops u th maxPresses prize calls [] = True"
| "first_stops u th maxPresses prize calls (p # ps) =
     (stops_at u th maxPresses prize calls p
      \<and> first_stops u th maxPresses prize (calls + nat p) ps)"

text \<open>The draws accepted by these trials, one per trial: the draw of the stopping press.\<close>

fun accepted_draws :: "rng \<Rightarrow> real \<Rightarrow> nat \<Rightarrow> int list \<Rightarrow> real list" where
  "accepted_draws u prize calls [] = []"
| "accepted_draws u prize calls (p # ps) =
     fl (u (calls + nat (p - 1)) * prize) # accepted_draws u prize (calls + nat p) ps"

subsection \<open>Sample inputs\<close>

text \<open>
  The worked examples below run the simulation on the source whose first calls return
  \<open>0.25\<close>, \<open>0.625\<close> and then \<open>0.875\<close> for ever.
\<close>

definition u_demo :: rng where
  "u_demo n = (if n = 0 then 0.25 else if n = 1 then 0.625 else 0.875)"

text \<open>Every worker of the sample runs draws from its own copy of this source.\<close>

definition us_demo :: "nat \<Rightarrow> rng" where
  "us_demo i = u_demo"

text \<open>
  The source that always returns the largest double below \<open>1\<close>, and the double nearest
  to \<open>0.9\<close> as a prize.
\<close>

definition u_top :: rng where
  "u_top n = 1 - 1 / 2 ^ 53"

definition prize_09 :: real where
  "prize_09 = 8106479329266893 / 2 ^ 53"

section \<open>Double rounding\<close>

subsection \<open>Rounding to an integer, and the exponent\<close>

lemma rne_cases: "rne y = \<lfloor>y\<rfloor> \<or> rne y = \<lfloor>y\<rfloor> + 1"
  by (simp add: rne_def Let_def)

lemma rne_of_int [simp]: "rne (of_int n) = n"
  by (simp add: rne_def)

lemma rne_error: "\<bar>of_int (rne y) - y\<bar> \<le> 1/2"
proof -
  have "of_int \<lfloor>y\<rfloor> \<le> y" "y < of_int \<lfloor>y\<rfloor> + 1" by linarith+
  then show ?thesis by (auto simp: rne_def Let_def)
qed

lemma rne_mono: assumes "y \<le> z" shows "rne y \<le> rne z"
proof (cases "\<lfloor>y\<rfloor> = \<lfloor>z\<rfloor>")
  case True
  with assms show ?thesis by (auto simp: rne_def Let_def)
next
  case False
  with assms have "\<lfloor>y\<rfloor> + 1 \<le> \<lfloor>z\<rfloor>" using floor_mono[OF assms] by linarith
  then show ?thesis using rne_cases[of y] rne_cases[of z] by linarith
qed

lemma binade_bounds:
  assumes "0 < x"
  shows "2 powi binade x \<le> x \<and> x < 2 powi (binade x + 1)"
proof (cases "1 \<le> x")
  case True
  let ?n = "\<lfloor>x\<rfloor>"
  from True have n: "0 < ?n" by linarith
  from bitlen_bounds[OF n] have b: "2 ^ nat (bitlen ?n - 1) \<le> ?n" "?n < 2 ^ nat (bitlen ?n)"
    by simp_all
  from n have b1: "1 \<le> bitlen ?n" using bitlen_eq_zero_iff[of ?n] bitlen_nonneg[of ?n] by linarith
  have "(2::real) powi (bitlen ?n - 1) = 2 ^ nat (bitlen ?n - 1)"
    using b1 by (simp add: power_int_nonneg_exp)
  also have "\<dots> \<le> of_int ?n" using b(1) by (metis of_int_le_iff of_int_numeral of_int_power)
  also have "\<dots> \<le> x" by linarith
  finally have lo: "2 powi (bitlen ?n - 1) \<le> x" .
  have "?n + 1 \<le> 2 ^ nat (bitlen ?n)" using b(2) by linarith
  then have "of_int (?n + 1) \<le> (2::real) ^ nat (bitlen ?n)"
    by (metis of_int_le_iff of_int_numeral of_int_power)
  moreover have "x < of_int (?n + 1)" by linarith
  ultimately have "x < (2::real) ^ nat (bitlen ?n)" by linarith
  also have "\<dots> = 2 powi (bitlen ?n - 1 + 1)" using b1 by (simp add: power_int_nonneg_exp)
  finally show ?thesis using lo True by (simp add: binade_def)
next
  case False
  let ?y = "1 / x"
  let ?m = "\<lceil>?y\<rceil> - 1"
  from False assms have y1: "1 < ?y" by simp
  then have m: "0 < ?m" by linarith
  from bitlen_bounds[OF m] have b: "2 ^ nat (bitlen ?m - 1) \<le> ?m" "?m < 2 ^ nat (bitlen ?m)"
    by simp_all
  from m have b1: "1 \<le> bitlen ?m" using bitlen_eq_zero_iff[of ?m] bitlen_nonneg[of ?m] by linarith
  have my: "of_int ?m < ?y" "?y \<le> of_int ?m + 1" by linarith+
  have "?m + 1 \<le> 2 ^ nat (bitlen ?m)" using b(2) by linarith
  then have "of_int (?m + 1) \<le> (2::real) ^ nat (bitlen ?m)"
    by (metis of_int_le_iff of_int_numeral of_int_power)
  then have "of_int ?m + 1 \<le> (2::real) ^ nat (bitlen ?m)" by simp
  with my(2) have "?y \<le> (2::real) ^ nat (bitlen ?m)" by (rule order_trans)
  then have "1 \<le> x * 2 ^ nat (bitlen ?m)" using assms by (simp add: field_simps)
  then have "1 / 2 ^ nat (bitlen ?m) \<le> x" by (simp add: field_simps)
  moreover have "(2::real) powi (- bitlen ?m) = 1 / 2 ^ nat (bitlen ?m)"
    using b1 by (simp add: power_int_minus power_int_nonneg_exp field_simps)
  ultimately have lo: "2 powi (- bitlen ?m) \<le> x" by simp
  have "(2::real) ^ nat (bitlen ?m - 1) \<le> of_int ?m"
    using b(1) by (metis of_int_le_iff of_int_numeral of_int_power)
  with my have "(2::real) ^ nat (bitlen ?m - 1) < ?y" by linarith
  then have "x * 2 ^ nat (bitlen ?m - 1) < 1" using assms by (simp add: field_simps)
  then have "x < 1 / 2 ^ nat (bitlen ?m - 1)" by (simp add: field_simps)
  moreover have "(2::real) powi (- bitlen ?m + 1) = 1 / 2 ^ nat (bitlen ?m - 1)"
  proof -
    have "(2::real) powi (- bitlen ?m + 1) = 2 powi (- (bitlen ?m - 1))" by simp
    also have "\<dots> = 1 / 2 powi (bitlen ?m - 1)" by (simp only: power_int_minus_divide)
    also have "\<dots> = 1 / 2 ^ nat (bitlen ?m - 1)" using b1 by (simp add: power_int_nonneg_exp)
    finally show ?thesis .
  qed
  ultimately have hi: "x < 2 powi (- bitlen ?m + 1)" by simp
  from lo hi False show ?thesis by (simp add: binade_def)
qed

lemma binade_unique:
  assumes "2 powi e \<le> x" and "x < 2 powi (e + 1)"
  shows "binade x = e"
proof -
  have "0 < (2::real) powi e" by simp
  with assms have x: "0 < x" by linarith
  from binade_bounds[OF x] have b: "2 powi binade x \<le> x" "x < 2 powi (binade x + 1)" by simp_all
  have "(2::real) powi binade x < 2 powi (e + 1)" using b(1) assms(2) by linarith
  then have "binade x < e + 1"
    using power_int_increasing[of "e + 1" "binade x" "2::real"] by (cases "binade x < e + 1") auto
  moreover have "(2::real) powi e < 2 powi (binade x + 1)" using b(2) assms(1) by linarith
  then have "e < binade x + 1"
    using power_int_increasing[of "binade x + 1" e "2::real"] by (cases "e < binade x + 1") auto
  ultimately show ?thesis by linarith
qed

subsection \<open>Rounding to a double: monotone, exact on doubles, relative error\<close>

lemma fl_zero [simp]: "fl 0 = 0"
  by (simp add: fl_def)

lemma fl_eval:
  assumes "2 powi e \<le> \<bar>x\<bar>" and "\<bar>x\<bar> < 2 powi (e + 1)"
  shows "fl x = of_int (rne (x / 2 powi (e - 52))) * 2 powi (e - 52)"
proof -
  have "0 < (2::real) powi e" by simp
  with assms(1) have "0 < \<bar>x\<bar>" by linarith
  then have "x \<noteq> 0" by simp
  moreover have "binade \<bar>x\<bar> = e" using assms by (rule binade_unique)
  ultimately show ?thesis by (simp add: fl_def Let_def)
qed

lemma fl_pos:
  assumes "0 < x"
  shows "fl x = of_int (rne (x / 2 powi (binade x - 52))) * 2 powi (binade x - 52)"
  using assms by (simp add: fl_def Let_def)

lemma scaled_bounds:
  assumes "0 < x"
  shows "2 ^ 52 \<le> x / 2 powi (binade x - 52)" and "x / 2 powi (binade x - 52) < 2 ^ 53"
proof -
  let ?b = "binade x"
  have u: "(2::real) powi ?b = 2 ^ 52 * 2 powi (?b - 52)"
    using power_int_add[of "2::real" 52 "?b - 52"] by simp
  have u1: "(2::real) powi (?b + 1) = 2 ^ 53 * 2 powi (?b - 52)"
    using power_int_add[of "2::real" 53 "?b - 52"] by (simp add: add.commute)
  have pos: "0 < (2::real) powi (?b - 52)" by simp
  from binade_bounds[OF assms] have "2 ^ 52 * 2 powi (?b - 52) \<le> x" "x < 2 ^ 53 * 2 powi (?b - 52)"
    using u u1 by simp_all
  then show "2 ^ 52 \<le> x / 2 powi (binade x - 52)" and "x / 2 powi (binade x - 52) < 2 ^ 53"
    using pos by (simp_all add: pos_le_divide_eq pos_divide_less_eq)
qed

lemma fl_pos_bounds:
  assumes "0 < x"
  shows "2 powi binade x \<le> fl x" and "fl x \<le> 2 powi (binade x + 1)"
proof -
  let ?b = "binade x"
  let ?u = "(2::real) powi (?b - 52)"
  let ?y = "x / ?u"
  have pos: "0 < ?u" by simp
  have "rne (of_int (2 ^ 52)) \<le> rne ?y"
    using scaled_bounds(1)[OF assms] by (intro rne_mono) simp
  then have lo: "2 ^ 52 \<le> rne ?y" by (simp only: rne_of_int)
  have "rne ?y \<le> rne (of_int (2 ^ 53))"
    using scaled_bounds(2)[OF assms] by (intro rne_mono) simp
  then have hi: "rne ?y \<le> 2 ^ 53" by (simp only: rne_of_int)
  have u: "(2::real) powi ?b = 2 ^ 52 * ?u"
    using power_int_add[of "2::real" 52 "?b - 52"] by simp
  have u1: "(2::real) powi (?b + 1) = 2 ^ 53 * ?u"
    using power_int_add[of "2::real" 53 "?b - 52"] by (simp add: add.commute)
  from lo have "(2::real) ^ 52 \<le> of_int (rne ?y)"
    by (metis of_int_le_iff of_int_numeral of_int_power)
  then have "2 ^ 52 * ?u \<le> of_int (rne ?y) * ?u" using pos by (simp add: mult_right_mono)
  then show "2 powi binade x \<le> fl x" by (simp only: u fl_pos[OF assms])
  from hi have "of_int (rne ?y) \<le> (2::real) ^ 53"
    by (metis of_int_le_iff of_int_numeral of_int_power)
  then have "of_int (rne ?y) * ?u \<le> 2 ^ 53 * ?u" using pos by (simp add: mult_right_mono)
  then show "fl x \<le> 2 powi (binade x + 1)" by (simp only: u1 fl_pos[OF assms])
qed

lemma binade_mono:
  assumes "0 < x" and "x \<le> y"
  shows "binade x \<le> binade y"
proof -
  from assms have y: "0 < y" by simp
  have "(2::real) powi binade x \<le> x" using binade_bounds[OF assms(1)] by simp
  also have "x \<le> y" by fact
  also have "y < 2 powi (binade y + 1)" using binade_bounds[OF y] by simp
  finally have "(2::real) powi binade x < 2 powi (binade y + 1)" .
  then have "binade x < binade y + 1"
    using power_int_increasing[of "binade y + 1" "binade x" "2::real"]
    by (cases "binade x < binade y + 1") auto
  then show ?thesis by simp
qed

lemma fl_mono_nonneg:
  assumes "0 \<le> x" and "x \<le> y"
  shows "fl x \<le> fl y"
proof (cases "x = 0")
  case True
  show ?thesis
  proof (cases "y = 0")
    case True
    with \<open>x = 0\<close> show ?thesis by simp
  next
    case False
    with assms have y: "0 < y" by simp
    have "0 < (2::real) powi binade y" by simp
    with fl_pos_bounds(1)[OF y] have "0 < fl y" by linarith
    with \<open>x = 0\<close> show ?thesis by simp
  qed
next
  case False
  with assms have x: "0 < x" and y: "0 < y" by simp_all
  from binade_mono[OF x assms(2)] have le: "binade x \<le> binade y" .
  show ?thesis
  proof (cases "binade x = binade y")
    case True
    let ?u = "(2::real) powi (binade y - 52)"
    have pos: "0 < ?u" by simp
    have "x / ?u \<le> y / ?u" using assms(2) pos by (simp add: divide_right_mono)
    then have "rne (x / ?u) \<le> rne (y / ?u)" by (rule rne_mono)
    then have "of_int (rne (x / ?u)) * ?u \<le> of_int (rne (y / ?u)) * ?u"
      using pos by (simp add: mult_right_mono)
    then show ?thesis by (simp only: fl_pos[OF x] fl_pos[OF y] True)
  next
    case False
    with le have "binade x + 1 \<le> binade y" by simp
    then have "(2::real) powi (binade x + 1) \<le> 2 powi binade y"
      by (intro power_int_increasing) simp_all
    with fl_pos_bounds(2)[OF x] fl_pos_bounds(1)[OF y] show ?thesis by linarith
  qed
qed

lemma fl_nonneg: "0 \<le> x \<Longrightarrow> 0 \<le> fl x"
  using fl_mono_nonneg[of 0 x] by simp

lemma fl_exact_dyadic:
  assumes "0 \<le> n" and "n < 2 ^ 53"
  shows "fl (of_int n / 2 ^ k) = of_int n / 2 ^ k"
proof (cases "n = 0")
  case True
  then show ?thesis by simp
next
  case False
  let ?x = "real_of_int n / 2 ^ k"
  let ?b = "binade ?x"
  from False assms have n: "0 < n" by simp
  then have x: "0 < ?x" by simp
  have "real_of_int n < 2 ^ 53" using assms(2) by (metis of_int_less_iff of_int_numeral of_int_power)
  then have "?x < 2 ^ 53 / 2 ^ k" by (simp add: divide_strict_right_mono)
  also have "\<dots> = 2 powi (53 - int k)" by (simp add: power_int_diff)
  finally have "?x < 2 powi (53 - int k)" .
  with binade_bounds[OF x] have "(2::real) powi ?b < 2 powi (53 - int k)" by linarith
  then have "?b < 53 - int k"
    using power_int_increasing[of "53 - int k" ?b "2::real"] by (cases "?b < 53 - int k") auto
  then have m: "0 \<le> 52 - ?b - int k" by simp
  define m where "m = nat (52 - ?b - int k)"
  have "?x / 2 powi (?b - 52) = of_int n * 2 powi (52 - ?b - int k)"
    by (simp add: power_int_diff power_int_add field_simps)
  also have "\<dots> = of_int n * 2 ^ m" using m by (simp add: m_def power_int_nonneg_exp)
  also have "\<dots> = of_int (n * 2 ^ m)" by simp
  finally have "rne (?x / 2 powi (?b - 52)) = n * 2 ^ m" by (simp only: rne_of_int)
  then have "fl ?x = of_int (n * 2 ^ m) * 2 powi (?b - 52)" by (simp only: fl_pos[OF x])
  also have "\<dots> = of_int n * (2 powi (52 - ?b - int k) * 2 powi (?b - 52))"
    using m by (simp add: m_def power_int_nonneg_exp)
  also have "2 powi (52 - ?b - int k) * 2 powi (?b - 52) = (2::real) powi (- int k)"
    using power_int_add[of "2::real" "52 - ?b - int k" "?b - 52"] by simp
  also have "of_int n * (2::real) powi (- int k) = ?x" by (simp add: power_int_minus field_simps)
  finally show ?thesis .
qed

lemma fl_of_int:
  assumes "0 \<le> n" and "n < 2 ^ 53"
  shows "fl (of_int n) = of_int n"
  using fl_exact_dyadic[OF assms, of 0] by simp

lemma fl_error:
  assumes "0 < x"
  shows "\<bar>fl x - x\<bar> \<le> x / 2 ^ 53"
proof -
  let ?u = "(2::real) powi (binade x - 52)"
  let ?y = "x / ?u"
  have pos: "0 < ?u" by simp
  have "fl x - x = (of_int (rne ?y) - ?y) * ?u" using pos by (simp add: fl_pos[OF assms] algebra_simps)
  then have "\<bar>fl x - x\<bar> = \<bar>of_int (rne ?y) - ?y\<bar> * ?u" using pos by (simp add: abs_mult)
  also have "\<dots> \<le> 1/2 * ?u" using rne_error[of ?y] pos by (intro mult_right_mono) simp_all
  also have "\<dots> = 2 powi binade x / 2 ^ 53"
    using power_int_add[of "2::real" 52 "binade x - 52"] by simp
  also have "\<dots> \<le> x / 2 ^ 53" using binade_bounds[OF assms] by (simp add: divide_right_mono)
  finally show ?thesis .
qed

subsection \<open>The floor of a rounded quotient, and some values\<close>

lemma floor_fl_divide:
  assumes "0 \<le> a" and "a < 2 ^ 53" and "1 \<le> b"
  shows "\<lfloor>fl (real_of_int a / real_of_int b)\<rfloor> = a div b"
proof (cases "a = 0")
  case True
  then show ?thesis by simp
next
  case False
  let ?x = "real_of_int a / real_of_int b"
  let ?q = "a div b"
  from False assms have a: "0 < a" and b: "0 < b" by simp_all
  then have x: "0 < ?x" by simp
  have q0: "0 \<le> ?q" using assms by (simp add: pos_imp_zdiv_nonneg_iff)
  have qb: "?q * b \<le> a" using div_mult_mod_eq[of a b] pos_mod_sign[OF b, of a] by linarith
  have "?q * 1 \<le> ?q * b" using q0 assms(3) by (intro mult_left_mono) simp_all
  with qb have qa: "?q \<le> a" by simp
  from qb have "real_of_int ?q * real_of_int b \<le> real_of_int a"
    by (metis of_int_le_iff of_int_mult)
  then have qx: "real_of_int ?q \<le> ?x" using b by (simp add: pos_le_divide_eq)
  have "fl (real_of_int ?q) = real_of_int ?q" using q0 qa assms(2) by (intro fl_of_int) simp_all
  with fl_mono_nonneg[of "real_of_int ?q" ?x] q0 qx have lo: "real_of_int ?q \<le> fl ?x" by simp
  have "a + 1 \<le> ?q * b + b"
    using pos_mod_bound[OF b, of a] div_mult_mod_eq[of a b] by linarith
  then have "real_of_int (a + 1) \<le> real_of_int ((?q + 1) * b)"
    by (simp only: of_int_le_iff) (simp add: algebra_simps)
  then have "(real_of_int a + 1) / real_of_int b \<le> real_of_int ?q + 1"
    using b by (simp add: pos_divide_le_eq)
  then have up: "?x + 1 / real_of_int b \<le> real_of_int ?q + 1" by (simp add: add_divide_distrib)
  have "real_of_int a < 2 ^ 53" using assms(2) by (metis of_int_less_iff of_int_numeral of_int_power)
  then have "real_of_int a / 2 ^ 53 < 1" by simp
  moreover have "0 < 1 / real_of_int b" using b by simp
  ultimately have "real_of_int a / 2 ^ 53 * (1 / real_of_int b) < 1 * (1 / real_of_int b)"
    by (rule mult_strict_right_mono)
  moreover have "?x / 2 ^ 53 = real_of_int a / 2 ^ 53 * (1 / real_of_int b)" by simp
  ultimately have "?x / 2 ^ 53 < 1 / real_of_int b" by simp
  with fl_error[OF x] have "fl ?x < ?x + 1 / real_of_int b" by linarith
  with up have hi: "fl ?x < real_of_int ?q + 1" by linarith
  from lo hi show ?thesis by (rule floor_unique)
qed

lemma fl_numeral:
  "(numeral n :: int) < 2 ^ 53 \<Longrightarrow> fl (numeral n) = numeral n"
  using fl_of_int[of "numeral n"] by simp

lemma fl_quot_big: "fl (36028797018963968 / 5) = 7205759403792794"
  using fl_eval[of 52 "36028797018963968 / 5"] by (simp add: rne_def Let_def)

section \<open>ThresholdSolver: computeF and thresholds\<close>

subsection \<open>The array built by computeF\<close>

lemma two_le_nat_obtain:
  assumes "2 \<le> (j::int)"
  obtains m where "nat j = Suc (Suc m)"
proof -
  from assms have "2 \<le> nat j" by linarith
  then show thesis using that[of "nat j - 2"] by simp
qed

text \<open>
  Loop invariant of \<^verbatim>\<open>computeF\<close>: at the head of iteration \<open>j\<close> the array has \<open>j\<close>
  elements, element \<open>i\<close> being \<open>f(i)\<close>. It gives the length and the contents of the result.
\<close>

lemma computeF_loop_inv:
  "2 \<le> j \<Longrightarrow> length f = nat j \<Longrightarrow> (\<forall>i < length f. f ! i = f_spec i) \<Longrightarrow>
   length (computeF_loop maxPresses j f) = max (nat j) (nat (maxPresses + 1)) \<and>
   (\<forall>i < length (computeF_loop maxPresses j f). computeF_loop maxPresses j f ! i = f_spec i)"
proof (induction maxPresses j f rule: computeF_loop.induct)
  case (1 maxPresses j f)
  show ?case
  proof (cases "j \<le> maxPresses")
    case False
    with "1.prems" show ?thesis
      by (auto simp add: computeF_loop.simps[of maxPresses j f] max_def)
  next
    case True
    let ?x = "0.5 + 0.5 * (f ! nat (j - 1)) ^ 2"
    let ?f' = "f @ [?x]"
    from "1.prems"(1) obtain m where m: "nat j = Suc (Suc m)"
      by (rule two_le_nat_obtain)
    have jm: "nat (j - 1) = Suc m" using m "1.prems"(1) by linarith
    have x: "?x = f_spec (nat j)"
      using "1.prems" m jm by simp
    have len: "length ?f' = nat (j + 1)" using "1.prems" by simp
    have all: "\<forall>i < length ?f'. ?f' ! i = f_spec i"
      using "1.prems" x by (auto simp: nth_append less_Suc_eq)
    have "2 \<le> j + 1" using "1.prems" by simp
    from "1.IH"[OF True this len all] True "1.prems"(1)
    show ?thesis by (simp add: computeF_loop.simps[of maxPresses j f] max_def)
  qed
qed

text \<open>
  Inside the loop the read \<^verbatim>\<open>f[j - 1]\<close> is the last element of the array: no read of
  \<^verbatim>\<open>computeF\<close> is out of range.
\<close>

lemma computeF_loop_read_in_range:
  "2 \<le> j \<Longrightarrow> length f = nat j \<Longrightarrow> nat (j - 1) < length f"
  by linarith

lemma computeF_length: "length (computeF maxPresses) = max 2 (nat (maxPresses + 1))"
  using computeF_loop_inv[of 2 "[0, 0.5]" maxPresses]
  by (simp add: computeF_def less_Suc_eq numeral_2_eq_2)

lemma computeF_nth: "i < length (computeF maxPresses) \<Longrightarrow> computeF maxPresses ! i = f_spec i"
  using computeF_loop_inv[of 2 "[0, 0.5]" maxPresses]
  by (simp add: computeF_def less_Suc_eq numeral_2_eq_2)

subsection \<open>The table built by thresholds\<close>

lemma thresholds_loop_eq:
  "thresholds_loop f prize k t = t @ map (\<lambda>k'. f ! nat (k' - 1) * prize) (rev [1..k])"
proof (induction f prize k t rule: thresholds_loop.induct)
  case (1 f prize k t)
  show ?case
  proof (cases "k \<ge> 1")
    case True
    then have "[1..k] = [1..k - 1] @ [k]" by (simp add: upto_rec2)
    with True "1.IH" show ?thesis
      by (simp add: thresholds_loop.simps[of f prize k t])
  next
    case False
    then show ?thesis by (simp add: thresholds_loop.simps[of f prize k t])
  qed
qed

text \<open>Every read \<^verbatim>\<open>f[k - 1]\<close> of \<^verbatim>\<open>thresholds\<close> is inside the array of \<^verbatim>\<open>computeF\<close>.\<close>

lemma thresholds_read_in_range:
  "1 \<le> k \<Longrightarrow> k \<le> maxPresses \<Longrightarrow> nat (k - 1) < length (computeF maxPresses)"
  by (simp add: computeF_length)

lemma thresholds_eq_map:
  "thresholds maxPresses prize = map (\<lambda>k. f_spec (nat (k - 1)) * prize) (rev [1..maxPresses])"
proof -
  have "\<And>k. k \<in> set [1..maxPresses] \<Longrightarrow>
          computeF maxPresses ! nat (k - 1) = f_spec (nat (k - 1))"
    by (rule computeF_nth) (simp add: thresholds_read_in_range)
  then show ?thesis
    by (simp add: thresholds_def thresholds_loop_eq)
qed

text \<open>
  The table is listed most presses remaining first: the entry for \<open>k\<close> presses remaining
  is at index \<open>maxPresses - k\<close>, which is index \<open>press - 1\<close> at press
  \<open>press = maxPresses - k + 1\<close>.
\<close>

lemma thresholds_nth_presses_remaining:
  assumes "1 \<le> k" and "k \<le> maxPresses"
  shows "thresholds maxPresses prize ! nat (maxPresses - k) = f_spec (nat (k - 1)) * prize"
proof -
  let ?i = "nat (maxPresses - k)"
  from assms have i: "?i < length [1..maxPresses]" by simp
  have "rev [1..maxPresses] ! ?i = [1..maxPresses] ! (length [1..maxPresses] - Suc ?i)"
    using i by (rule rev_nth)
  also have "\<dots> = k" using assms by simp
  finally have "rev [1..maxPresses] ! ?i = k" .
  with i show ?thesis by (simp add: thresholds_eq_map)
qed

subsection \<open>The recurrence is increasing and stays in the unit interval\<close>

lemma f_spec_bounds: "0 \<le> f_spec j \<and> f_spec j \<le> f_spec (Suc j) \<and> f_spec (Suc j) \<le> 1"
proof (induction j)
  case 0
  show ?case by simp
next
  case (Suc j)
  let ?a = "f_spec j" and ?b = "f_spec (Suc j)"
  from Suc.IH have a: "0 \<le> ?a" "?a \<le> ?b" "?b \<le> 1" by simp_all
  have sq: "?a ^ 2 \<le> ?b ^ 2" using a by (intro power_mono) simp_all
  have b1: "?b ^ 2 \<le> 1" using a by (simp add: power_le_one)
  have "?b \<le> f_spec (Suc (Suc j))"
  proof (cases j)
    case 0
    then show ?thesis by (simp add: power2_eq_square)
  next
    case (Suc i)
    then show ?thesis using sq by simp
  qed
  moreover have "f_spec (Suc (Suc j)) \<le> 1" using b1 by simp
  moreover have "0 \<le> ?b" using a by simp
  ultimately show ?case by simp
qed

lemma f_spec_mono: "i \<le> j \<Longrightarrow> f_spec i \<le> f_spec j"
  by (rule lift_Suc_mono_le) (simp_all add: f_spec_bounds)

lemma thresholds_sorted:
  assumes "0 \<le> prize"
  shows "sorted_wrt (\<ge>) (thresholds maxPresses prize)"
proof -
  have "sorted_wrt (\<lambda>k k'. f_spec (nat (k - 1)) * prize \<ge> f_spec (nat (k' - 1)) * prize)
          (rev [1..maxPresses])"
  proof (rule sorted_wrt_mono_rel[where P = "(\<ge>)"])
    show "sorted_wrt (\<ge>) (rev [1..maxPresses])"
      by (simp add: sorted_wrt_rev)
  next
    fix k k' :: int
    assume "k \<ge> k'"
    then have "f_spec (nat (k' - 1)) \<le> f_spec (nat (k - 1))"
      by (intro f_spec_mono) simp
    then show "f_spec (nat (k' - 1)) * prize \<le> f_spec (nat (k - 1)) * prize"
      using assms by (rule mult_right_mono)
  qed
  then show ?thesis by (simp add: thresholds_eq_map sorted_wrt_map)
qed

lemma thresholds_last:
  assumes "1 \<le> maxPresses"
  shows "last (thresholds maxPresses prize) = 0"
proof -
  from assms have "[1..maxPresses] = 1 # [2..maxPresses]" by (simp add: upto_rec1)
  then show ?thesis by (simp add: thresholds_eq_map)
qed

lemma upto_1_10: "rev [1..10::int] = [10, 9, 8, 7, 6, 5, 4, 3, 2, 1]"
  by (simp add: upto_rec1)

lemma upto_1_3: "rev [1..3::int] = [3, 2, 1]"
  by (simp add: upto_rec1)

subsection \<open>Claims about the threshold table\<close>

text \<open>
  C2. For every \<open>maxPresses\<close> (in particular every \<open>maxPresses \<ge> 1\<close>) and every prize,
  \<^verbatim>\<open>thresholds\<close> returns a table of length exactly \<open>maxPresses\<close>; its entries are
  \<open>f(k - 1) * prize\<close>, listed from \<open>k = maxPresses\<close> down to \<open>k = 1\<close>, where \<open>f\<close> is the
  recurrence of the specification (\<open>f(0) = 0\<close>, \<open>f(1) = 0.5\<close>,
  \<open>f(j) = 0.5 * (1 + f(j-1)\<^sup>2)\<close>), which the loop of \<^verbatim>\<open>computeF\<close> computes for increasing
  \<open>j\<close>.
\<close>

theorem thresholds_table:
  "thresholds maxPresses prize
     = map (\<lambda>k. f_spec (nat (k - 1)) * prize) (rev [1..maxPresses])
   \<and> length (thresholds maxPresses prize) = nat maxPresses"
proof -
  let ?f = "computeF maxPresses"
  have emitted: "thresholds maxPresses prize
      = map (\<lambda>k. ?f ! nat (k - 1) * prize) (rev [1..maxPresses])"
    by (simp add: thresholds_def thresholds_loop_eq)
  have "?f ! nat (k - 1) = f_spec (nat (k - 1))" if "k \<in> set (rev [1..maxPresses])" for k
  proof -
    from that have "1 \<le> k" and "k \<le> maxPresses" by simp_all
    then have "nat (k - 1) < length ?f" by (rule thresholds_read_in_range)
    then show ?thesis by (rule computeF_nth)
  qed
  then have "map (\<lambda>k. ?f ! nat (k - 1) * prize) (rev [1..maxPresses])
      = map (\<lambda>k. f_spec (nat (k - 1)) * prize) (rev [1..maxPresses])"
    by (intro map_cong) simp_all
  with emitted have table: "thresholds maxPresses prize
      = map (\<lambda>k. f_spec (nat (k - 1)) * prize) (rev [1..maxPresses])"
    by simp
  have "length (thresholds maxPresses prize) = nat maxPresses"
    by (simp add: emitted)
  with table show ?thesis by simp
qed

text \<open>
  C5. For every \<open>maxPresses \<ge> 1\<close> and every prize \<open>> 0\<close>, the table is non-increasing in
  index order (most presses remaining first), and its last entry, the one for one press
  remaining, is exactly \<open>0\<close>.
\<close>

theorem thresholds_nonincreasing_last_zero:
  assumes "1 \<le> maxPresses" and "0 < prize"
  shows "sorted_wrt (\<ge>) (thresholds maxPresses prize)
       \<and> last (thresholds maxPresses prize) = 0"
  using assms thresholds_sorted[of prize maxPresses] thresholds_last[of maxPresses prize]
  by simp

theorem thresholds_nonincreasing_last_zero_witness:
  "(1::int) \<le> 3 \<and> (0::real) < 100
   \<and> thresholds 3 100 = [62.5, 50, 0]
   \<and> sorted_wrt (\<ge>) (thresholds 3 100) \<and> last (thresholds 3 100) = 0"
proof -
  have "thresholds 3 100 = [62.5, 50, 0]"
    by (simp add: thresholds_eq_map upto_1_3 eval_nat_numeral power2_eq_square)
  then show ?thesis
    using thresholds_nonincreasing_last_zero[of 3 100] by simp
qed

text \<open>
  C6, as the code has it. The claim (an input with \<open>maxPresses < 1\<close> is rejected or clamped,
  and no empty table is produced) fails: \<^verbatim>\<open>thresholds\<close> validates nothing, and for
  \<open>maxPresses = 0\<close> it returns the empty table.
\<close>

theorem thresholds_zero_presses_empty:
  "thresholds 0 100000 = []"
  by (simp add: thresholds_eq_map)

text \<open>
  C6, amended. For every \<open>maxPresses < 1\<close>, \<^verbatim>\<open>thresholds\<close> neither rejects nor clamps the
  input: its loop runs no iteration and it returns the empty table.
\<close>

theorem thresholds_no_validation:
  "maxPresses < 1 \<Longrightarrow> thresholds maxPresses prize = []"
  by (simp add: thresholds_eq_map)

theorem thresholds_no_validation_witness:
  "(- 2 :: int) < 1 \<and> thresholds (- 2) 5 = []"
  using thresholds_no_validation[of "- 2" 5] by simp

text \<open>
  C7. \<^verbatim>\<open>thresholds(10, 100000)\<close> has ten entries, each within \<open>0.5\<close> of the listed value,
  in order.
\<close>

theorem thresholds_default_values:
  "length (thresholds 10 100000) = 10
   \<and> \<bar>thresholds 10 100000 ! 0 - 84982.14\<bar> \<le> 0.5
   \<and> \<bar>thresholds 10 100000 ! 1 - 83644.65\<bar> \<le> 0.5
   \<and> \<bar>thresholds 10 100000 ! 2 - 82030.06\<bar> \<le> 0.5
   \<and> \<bar>thresholds 10 100000 ! 3 - 80037.57\<bar> \<le> 0.5
   \<and> \<bar>thresholds 10 100000 ! 4 - 77508.15\<bar> \<le> 0.5
   \<and> \<bar>thresholds 10 100000 ! 5 - 74172.97\<bar> \<le> 0.5
   \<and> \<bar>thresholds 10 100000 ! 6 - 69531.25\<bar> \<le> 0.5
   \<and> \<bar>thresholds 10 100000 ! 7 - 62500.00\<bar> \<le> 0.5
   \<and> \<bar>thresholds 10 100000 ! 8 - 50000.00\<bar> \<le> 0.5
   \<and> \<bar>thresholds 10 100000 ! 9 - 0.00\<bar> \<le> 0.5"
  by (simp add: thresholds_eq_map upto_1_10 eval_nat_numeral power2_eq_square)

text \<open>
  C10. The table is homogeneous in the prize: for every \<open>maxPresses\<close> and every \<open>c\<close>, the
  table for \<open>(maxPresses, c)\<close> is the table for \<open>(maxPresses, 1)\<close> with each entry
  multiplied by \<open>c\<close>.
\<close>

theorem thresholds_homogeneous:
  "thresholds maxPresses c = map (\<lambda>t. t * c) (thresholds maxPresses 1)"
proof -
  let ?ks = "rev [1..maxPresses]"
  have unit: "thresholds maxPresses 1 = map (\<lambda>k. f_spec (nat (k - 1))) ?ks"
    by (simp add: thresholds_eq_map)
  have "thresholds maxPresses c = map (\<lambda>k. f_spec (nat (k - 1)) * c) ?ks"
    by (rule thresholds_eq_map)
  also have "\<dots> = map (\<lambda>t. t * c) (map (\<lambda>k. f_spec (nat (k - 1))) ?ks)"
    by simp
  finally show ?thesis by (simp only: unit)
qed

section \<open>SimulationWorker: simulate\<close>

subsection \<open>One trial\<close>

text \<open>The three ways an iteration of the inner loop can go.\<close>

lemma press_loop_stop:
  assumes "press \<le> maxPresses"
    and "ge_at (fl (u calls * prize)) th (press - 1) \<or> press = maxPresses"
  shows "press_loop u th maxPresses prize press winnings calls
           = (fl (winnings + fl (u calls * prize)), calls + 1)"
  using assms by (simp add: press_loop.simps[of u th maxPresses prize press winnings calls])

lemma press_loop_continue:
  assumes "press < maxPresses"
    and "\<not> ge_at (fl (u calls * prize)) th (press - 1)"
  shows "press_loop u th maxPresses prize press winnings calls
           = press_loop u th maxPresses prize (press + 1) winnings (calls + 1)"
  using assms by (simp add: press_loop.simps[of u th maxPresses prize press winnings calls])

lemma press_loop_none:
  assumes "maxPresses < press"
  shows "press_loop u th maxPresses prize press winnings calls = (winnings, calls)"
  using assms by (simp add: press_loop.simps[of u th maxPresses prize press winnings calls])

text \<open>
  From press \<open>press\<close> on, the inner loop stops at the first press \<open>p\<close> whose draw reaches
  its threshold, or at \<open>maxPresses\<close>; it has then called the random source once per press
  and added that one draw.
\<close>

lemma press_loop_first_stop:
  assumes "press \<le> maxPresses"
  shows "\<exists>p. press \<le> p \<and> p \<le> maxPresses
      \<and> (ge_at (fl (u (calls + nat (p - press)) * prize)) th (p - 1) \<or> p = maxPresses)
      \<and> (\<forall>q. press \<le> q \<and> q < p \<longrightarrow>
             \<not> ge_at (fl (u (calls + nat (q - press)) * prize)) th (q - 1))
      \<and> press_loop u th maxPresses prize press winnings calls
           = (fl (winnings + fl (u (calls + nat (p - press)) * prize)),
              calls + nat (p - press) + 1)"
  using assms
proof (induction u th maxPresses prize press winnings calls rule: press_loop.induct)
  case (1 u th maxPresses prize press winnings calls)
  show ?case
  proof (cases "ge_at (fl (u calls * prize)) th (press - 1) \<or> press = maxPresses")
    case True
    with "1.prems" have "press_loop u th maxPresses prize press winnings calls
           = (fl (winnings + fl (u calls * prize)), calls + 1)"
      by (rule press_loop_stop)
    with True "1.prems" show ?thesis
      by (intro exI[of _ press]) auto
  next
    case False
    with "1.prems" have lt: "press < maxPresses"
      and no: "\<not> ge_at (fl (u calls * prize)) th (press - 1)"
      by simp_all
    from lt have le: "press + 1 \<le> maxPresses" by simp
    from "1.IH"[OF "1.prems" refl refl refl False le]
    obtain p where p: "press + 1 \<le> p" "p \<le> maxPresses"
      "ge_at (fl (u (calls + 1 + nat (p - (press + 1))) * prize)) th (p - 1) \<or> p = maxPresses"
      "\<forall>q. press + 1 \<le> q \<and> q < p \<longrightarrow>
           \<not> ge_at (fl (u (calls + 1 + nat (q - (press + 1))) * prize)) th (q - 1)"
      "press_loop u th maxPresses prize (press + 1) winnings (calls + 1)
           = (fl (winnings + fl (u (calls + 1 + nat (p - (press + 1))) * prize)),
              calls + 1 + nat (p - (press + 1)) + 1)"
      by blast
    have idx: "\<And>q. press + 1 \<le> q \<Longrightarrow> calls + 1 + nat (q - (press + 1)) = calls + nat (q - press)"
      by linarith
    have "\<forall>q. press \<le> q \<and> q < p \<longrightarrow>
            \<not> ge_at (fl (u (calls + nat (q - press)) * prize)) th (q - 1)"
    proof (intro allI impI)
      fix q assume q: "press \<le> q \<and> q < p"
      show "\<not> ge_at (fl (u (calls + nat (q - press)) * prize)) th (q - 1)"
      proof (cases "q = press")
        case True
        with no show ?thesis by simp
      next
        case False
        with q have q1: "press + 1 \<le> q" by simp
        with p(4) q
        have "\<not> ge_at (fl (u (calls + 1 + nat (q - (press + 1))) * prize)) th (q - 1)"
          by blast
        then show ?thesis unfolding idx[OF q1] .
      qed
    qed
    moreover have "press_loop u th maxPresses prize press winnings calls
        = (fl (winnings + fl (u (calls + nat (p - press)) * prize)),
           calls + nat (p - press) + 1)"
      using press_loop_continue[of press maxPresses u calls prize th winnings, OF lt no]
        p(5)[unfolded idx[OF p(1)]] by (simp only:)
    moreover have "ge_at (fl (u (calls + nat (p - press)) * prize)) th (p - 1) \<or> p = maxPresses"
      using p(3)[unfolded idx[OF p(1)]] .
    ultimately show ?thesis using p(1,2)
      by (intro exI[of _ p]) simp
  qed
qed

lemma press_loop_stops_at:
  assumes "1 \<le> maxPresses"
  shows "\<exists>p. stops_at u th maxPresses prize calls p
      \<and> press_loop u th maxPresses prize 1 winnings calls
           = (fl (winnings + fl (u (calls + nat (p - 1)) * prize)), calls + nat p)"
proof -
  from press_loop_first_stop[OF assms, of u calls prize th winnings]
  obtain p where p: "1 \<le> p" "p \<le> maxPresses"
      "ge_at (fl (u (calls + nat (p - 1)) * prize)) th (p - 1) \<or> p = maxPresses"
      "\<forall>q. 1 \<le> q \<and> q < p \<longrightarrow> \<not> ge_at (fl (u (calls + nat (q - 1)) * prize)) th (q - 1)"
      "press_loop u th maxPresses prize 1 winnings calls
           = (fl (winnings + fl (u (calls + nat (p - 1)) * prize)), calls + nat (p - 1) + 1)"
    by blast
  from p(1) have "calls + nat (p - 1) + 1 = calls + nat p" by linarith
  with p(5) have "press_loop u th maxPresses prize 1 winnings calls
           = (fl (winnings + fl (u (calls + nat (p - 1)) * prize)), calls + nat p)" by simp
  moreover from p(1-4) have "stops_at u th maxPresses prize calls p"
    by (simp add: stops_at_def)
  ultimately show ?thesis by blast
qed

text \<open>The press at which a trial stops is unique, and so is the list of a run of trials.\<close>

lemma stops_at_unique:
  assumes "stops_at u th maxPresses prize calls p"
    and "stops_at u th maxPresses prize calls p'"
  shows "p' = p"
proof -
  have less: False if a: "stops_at u th maxPresses prize calls a"
    and b: "stops_at u th maxPresses prize calls b" and "a < b" for a b
  proof -
    from a have a1: "1 \<le> a" by (simp add: stops_at_def)
    with \<open>a < b\<close> have "a \<in> {1..<b}" by simp
    with b have "\<not> ge_at (fl (u (calls + nat (a - 1)) * prize)) th (a - 1)"
      by (simp add: stops_at_def)
    with a have "a = maxPresses" by (auto simp: stops_at_def)
    moreover from b have "b \<le> maxPresses" by (simp add: stops_at_def)
    ultimately show False using \<open>a < b\<close> by simp
  qed
  from less[OF assms(1) assms(2)] less[OF assms(2) assms(1)] show ?thesis by (cases p p' rule: linorder_cases) auto
qed

lemma first_stops_unique:
  assumes "first_stops u th maxPresses prize calls ps"
    and "first_stops u th maxPresses prize calls ps'"
    and "length ps' = length ps"
  shows "ps' = ps"
  using assms
proof (induction ps arbitrary: ps' calls)
  case Nil
  then show ?case by simp
next
  case (Cons p ps)
  from Cons.prems(3) obtain p' qs where ps': "ps' = p' # qs" by (cases ps') auto
  from Cons.prems(1,2) have "p' = p" unfolding ps' by (auto intro: stops_at_unique)
  with Cons.IH[of "calls + nat p" qs] Cons.prems show ?case unfolding ps' by simp
qed

lemma length_accepted_draws: "length (accepted_draws u prize calls ps) = length ps"
  by (induction ps arbitrary: calls) simp_all

subsection \<open>The outer loop\<close>

lemma simulate_loop_step:
  assumes "s < sims"
    and "press_loop u th maxPresses prize 1 winnings calls = (winnings', calls')"
  shows "simulate_loop u sims th maxPresses prize s winnings calls
           = simulate_loop u sims th maxPresses prize (s + 1) winnings' calls'"
  using assms by (simp add: simulate_loop.simps[of u sims th maxPresses prize s winnings calls])

lemma simulate_loop_done:
  assumes "\<not> s < sims"
  shows "simulate_loop u sims th maxPresses prize s winnings calls = (winnings, calls)"
  using assms by (simp add: simulate_loop.simps[of u sims th maxPresses prize s winnings calls])

lemma simulate_loop_trials:
  assumes "1 \<le> maxPresses"
  shows "\<exists>ps. length ps = nat (sims - s)
      \<and> first_stops u th maxPresses prize calls ps
      \<and> simulate_loop u sims th maxPresses prize s winnings calls
           = (foldl (\<lambda>w d. fl (w + d)) winnings (accepted_draws u prize calls ps),
              calls + sum_list (map nat ps))"
  using assms
proof (induction u sims th maxPresses prize s winnings calls rule: simulate_loop.induct)
  case (1 u sims th maxPresses prize s winnings calls)
  show ?case
  proof (cases "s < sims")
    case False
    then show ?thesis by (intro exI[of _ "[]"]) (simp add: simulate_loop_done)
  next
    case True
    from press_loop_stops_at[OF "1.prems", of u th prize calls winnings]
    obtain p where p: "stops_at u th maxPresses prize calls p"
      and pl: "press_loop u th maxPresses prize 1 winnings calls
           = (fl (winnings + fl (u (calls + nat (p - 1)) * prize)), calls + nat p)"
      by blast
    from "1.IH"[OF True pl[symmetric] "1.prems"]
    obtain ps where ps: "length ps = nat (sims - (s + 1))"
      "first_stops u th maxPresses prize (calls + nat p) ps"
      "simulate_loop u sims th maxPresses prize (s + 1)
           (fl (winnings + fl (u (calls + nat (p - 1)) * prize))) (calls + nat p)
         = (foldl (\<lambda>w d. fl (w + d)) (fl (winnings + fl (u (calls + nat (p - 1)) * prize)))
              (accepted_draws u prize (calls + nat p) ps),
            calls + nat p + sum_list (map nat ps))"
      by blast
    from True ps(1) have "length (p # ps) = nat (sims - s)" by simp
    moreover from p ps(2) have "first_stops u th maxPresses prize calls (p # ps)" by simp
    moreover have "simulate_loop u sims th maxPresses prize s winnings calls
           = (foldl (\<lambda>w d. fl (w + d)) winnings (accepted_draws u prize calls (p # ps)),
              calls + sum_list (map nat (p # ps)))"
      using simulate_loop_step[OF True pl] ps(3) by (simp add: add.assoc)
    ultimately show ?thesis by blast
  qed
qed

lemma fl_demo_values: "fl (1/4) = 1/4" "fl (5/8) = 5/8" "fl (7/8) = 7/8" "fl (3/2) = 3/2"
  using fl_exact_dyadic[of 1 2] fl_exact_dyadic[of 5 3] fl_exact_dyadic[of 7 3]
    fl_exact_dyadic[of 3 1]
  by simp_all

lemma demo_stops: "first_stops u_demo [0.75, 0.5, 0] 3 1 0 [2, 1]"
proof -
  have "{1..<2::int} = {1}" by auto
  then show ?thesis
    by (simp add: stops_at_def ge_at_def u_demo_def fl_demo_values)
qed

text \<open>
  C1. Let \<open>maxPresses \<ge> 1\<close>. A trial that starts with \<open>calls\<close> calls of the random source
  made and \<open>winnings\<close> accumulated stops at exactly one press \<open>p\<close> in \<open>1 .. maxPresses\<close>:
  the draw of press \<open>p\<close> reaches the threshold at table index \<open>p - 1\<close> (the entry for
  \<open>k = maxPresses - p + 1\<close> presses remaining in a table listed most presses remaining
  first) or \<open>p = maxPresses\<close> (forced acceptance), and no draw of an earlier press reaches
  its threshold; the trial makes \<open>p\<close> draws and adds the draw of press \<open>p\<close>, and no other,
  to \<open>winnings\<close>. \<^verbatim>\<open>simulate\<close> runs \<open>sims\<close> such trials one after the other: there is
  exactly one list \<open>ps\<close> of the presses at which they stop, it has one accepted draw per
  trial, and \<^verbatim>\<open>simulate\<close> returns the running sum of these accepted draws, from \<open>0\<close>.
\<close>

theorem simulate_accepts_one_draw_per_trial:
  assumes "1 \<le> maxPresses"
  shows "(\<exists>p. stops_at u th maxPresses prize calls p
            \<and> (\<forall>p'. stops_at u th maxPresses prize calls p' \<longrightarrow> p' = p)
            \<and> press_loop u th maxPresses prize 1 winnings calls
                 = (fl (winnings + fl (u (calls + nat (p - 1)) * prize)), calls + nat p))
       \<and> (\<exists>ps. length ps = nat sims
            \<and> first_stops u th maxPresses prize 0 ps
            \<and> (\<forall>ps'. length ps' = nat sims \<and> first_stops u th maxPresses prize 0 ps'
                   \<longrightarrow> ps' = ps)
            \<and> length (accepted_draws u prize 0 ps) = nat sims
            \<and> simulate u sims th maxPresses prize
                 = foldl (\<lambda>w d. fl (w + d)) 0 (accepted_draws u prize 0 ps))"
proof -
  from press_loop_stops_at[OF assms, of u th prize calls winnings]
  obtain p where p: "stops_at u th maxPresses prize calls p"
    "press_loop u th maxPresses prize 1 winnings calls
       = (fl (winnings + fl (u (calls + nat (p - 1)) * prize)), calls + nat p)"
    by blast
  have "\<forall>p'. stops_at u th maxPresses prize calls p' \<longrightarrow> p' = p"
    using stops_at_unique[OF p(1)] by blast
  with p have trial: "\<exists>p. stops_at u th maxPresses prize calls p
            \<and> (\<forall>p'. stops_at u th maxPresses prize calls p' \<longrightarrow> p' = p)
            \<and> press_loop u th maxPresses prize 1 winnings calls
                 = (fl (winnings + fl (u (calls + nat (p - 1)) * prize)), calls + nat p)"
    by blast
  from simulate_loop_trials[OF assms, of sims 0 u th prize 0 0]
  obtain ps where ps: "length ps = nat sims" "first_stops u th maxPresses prize 0 ps"
    "simulate_loop u sims th maxPresses prize 0 0 0
       = (foldl (\<lambda>w d. fl (w + d)) 0 (accepted_draws u prize 0 ps), 0 + sum_list (map nat ps))"
    by auto
  have "\<forall>ps'. length ps' = nat sims \<and> first_stops u th maxPresses prize 0 ps' \<longrightarrow> ps' = ps"
    using first_stops_unique[OF ps(2)] ps(1) by auto
  moreover have "simulate u sims th maxPresses prize
                 = foldl (\<lambda>w d. fl (w + d)) 0 (accepted_draws u prize 0 ps)"
    by (simp add: simulate_def ps(3))
  moreover have "length (accepted_draws u prize 0 ps) = nat sims"
    by (simp add: length_accepted_draws ps(1))
  ultimately show ?thesis using trial ps(1,2) by blast
qed

theorem simulate_accepts_one_draw_per_trial_witness:
  "(1::int) \<le> 3
   \<and> stops_at u_demo [0.75, 0.5, 0] 3 1 0 2
   \<and> press_loop u_demo [0.75, 0.5, 0] 3 1 1 0 0 = (0.625, 2)
   \<and> first_stops u_demo [0.75, 0.5, 0] 3 1 0 [2, 1]
   \<and> accepted_draws u_demo 1 0 [2, 1] = [0.625, 0.875]
   \<and> simulate u_demo 2 [0.75, 0.5, 0] 3 1 = 1.5"
proof -
  let ?th = "[0.75, 0.5, 0::real]"
  note fs = demo_stops
  then have s2: "stops_at u_demo ?th 3 1 0 2" by simp
  have acc: "accepted_draws u_demo 1 0 [2, 1] = [0.625, 0.875]"
    by (simp add: u_demo_def fl_demo_values)
  from simulate_accepts_one_draw_per_trial[of 3 u_demo ?th 1 0 0 2]
  obtain p ps where p: "stops_at u_demo ?th 3 1 0 p"
      "press_loop u_demo ?th 3 1 1 0 0 = (fl (0 + fl (u_demo (0 + nat (p - 1)) * 1)), 0 + nat p)"
    and ps: "\<forall>ps'. length ps' = nat 2 \<and> first_stops u_demo ?th 3 1 0 ps' \<longrightarrow> ps' = ps"
      "simulate u_demo 2 ?th 3 1 = foldl (\<lambda>w d. fl (w + d)) 0 (accepted_draws u_demo 1 0 ps)"
    by auto
  from stops_at_unique[OF p(1) s2] have "p = 2" by simp
  with p(2) have pl: "press_loop u_demo ?th 3 1 1 0 0 = (0.625, 2)"
    by (simp add: u_demo_def fl_demo_values)
  have "length [2, 1 :: int] = nat 2" by simp
  with ps(1) fs have "[2, 1] = ps" by blast
  then have "ps = [2, 1]" by simp
  with ps(2) have "simulate u_demo 2 ?th 3 1
      = foldl (\<lambda>w d. fl (w + d)) 0 (accepted_draws u_demo 1 0 [2, 1])" by (simp only:)
  also have "\<dots> = foldl (\<lambda>w d. fl (w + d)) 0 [0.625, 0.875]" by (simp only: acc)
  also have "\<dots> = 1.5" by (simp add: fl_demo_values)
  finally have sim: "simulate u_demo 2 ?th 3 1 = 1.5" .
  from s2 pl fs acc sim show ?thesis by (simp only: simp_thms)
qed

subsection \<open>The subtotal\<close>

lemma press_loop_lower:
  assumes "\<forall>n. 0 \<le> fl (u n * prize)" and "0 \<le> winnings"
  shows "0 \<le> fst (press_loop u th maxPresses prize press winnings calls)"
proof (cases "press \<le> maxPresses")
  case True
  from press_loop_first_stop[OF True, of u calls prize th winnings]
  obtain p where "press_loop u th maxPresses prize press winnings calls
           = (fl (winnings + fl (u (calls + nat (p - press)) * prize)),
              calls + nat (p - press) + 1)"
    by blast
  moreover from assms have "0 \<le> winnings + fl (u (calls + nat (p - press)) * prize)"
    by simp
  then have "0 \<le> fl (winnings + fl (u (calls + nat (p - press)) * prize))" by (rule fl_nonneg)
  ultimately show ?thesis by simp
next
  case False
  with assms(2) show ?thesis by (simp add: press_loop_none)
qed

lemma press_loop_upper:
  assumes "\<forall>n. 0 \<le> fl (u n * prize) \<and> fl (u n * prize) < prize"
    and "0 \<le> winnings" and "winnings \<le> b" and "fl (b + prize) = b + prize"
  shows "fst (press_loop u th maxPresses prize press winnings calls) \<le> b + prize"
proof (cases "press \<le> maxPresses")
  case True
  from press_loop_first_stop[OF True, of u calls prize th winnings]
  obtain p where pl: "press_loop u th maxPresses prize press winnings calls
           = (fl (winnings + fl (u (calls + nat (p - press)) * prize)),
              calls + nat (p - press) + 1)"
    by blast
  let ?d = "fl (u (calls + nat (p - press)) * prize)"
  from assms(1) have d: "0 \<le> ?d" "?d < prize" by blast+
  with assms(2,3) have "0 \<le> winnings + ?d" "winnings + ?d \<le> b + prize" by simp_all
  then have "fl (winnings + ?d) \<le> fl (b + prize)" by (rule fl_mono_nonneg)
  with assms(4) pl show ?thesis by simp
next
  case False
  from assms(1) have "0 \<le> fl (u 0 * prize)" "fl (u 0 * prize) < prize" by blast+
  then have "0 \<le> prize" by linarith
  with False assms(3) show ?thesis by (simp add: press_loop_none)
qed

lemma simulate_loop_lower:
  assumes "\<forall>n. 0 \<le> fl (u n * prize)" and "0 \<le> winnings"
  shows "0 \<le> fst (simulate_loop u sims th maxPresses prize s winnings calls)"
  using assms
proof (induction u sims th maxPresses prize s winnings calls rule: simulate_loop.induct)
  case (1 u sims th maxPresses prize s winnings calls)
  show ?case
  proof (cases "s < sims")
    case False
    with "1.prems" show ?thesis by (simp add: simulate_loop_done)
  next
    case True
    obtain w' c' where pl: "press_loop u th maxPresses prize 1 winnings calls = (w', c')"
      by (cases "press_loop u th maxPresses prize 1 winnings calls")
    from press_loop_lower[OF "1.prems", of th maxPresses 1 calls] pl have "0 \<le> w'" by simp
    from "1.IH"[OF True pl[symmetric] "1.prems"(1) this]
    show ?thesis by (simp add: simulate_loop_step[OF True pl])
  qed
qed

lemma simulate_loop_upper:
  assumes "\<forall>n. 0 \<le> fl (u n * prize) \<and> fl (u n * prize) < prize"
    and "\<forall>k. 0 \<le> k \<and> k \<le> sims \<longrightarrow> fl (real_of_int k * prize) = real_of_int k * prize"
    and "0 \<le> s" and "s \<le> sims" and "0 \<le> winnings" and "winnings \<le> real_of_int s * prize"
  shows "fst (simulate_loop u sims th maxPresses prize s winnings calls)
           \<le> real_of_int sims * prize"
  using assms
proof (induction u sims th maxPresses prize s winnings calls rule: simulate_loop.induct)
  case (1 u sims th maxPresses prize s winnings calls)
  show ?case
  proof (cases "s < sims")
    case False
    with "1.prems" have "s = sims" by simp
    with "1.prems"(6) False show ?thesis by (simp add: simulate_loop_done)
  next
    case True
    obtain w' c' where pl: "press_loop u th maxPresses prize 1 winnings calls = (w', c')"
      by (cases "press_loop u th maxPresses prize 1 winnings calls")
    have lower: "\<forall>n. 0 \<le> fl (u n * prize)" using "1.prems"(1) by blast
    from press_loop_lower[OF lower "1.prems"(5), of th maxPresses 1 calls] pl
    have w0: "0 \<le> w'" by simp
    have s1: "real_of_int s * prize + prize = real_of_int (s + 1) * prize"
      by (simp add: algebra_simps)
    from True "1.prems"(3) have "0 \<le> s + 1 \<and> s + 1 \<le> sims" by simp
    with "1.prems"(2) have "fl (real_of_int (s + 1) * prize) = real_of_int (s + 1) * prize"
      by blast
    then have rep: "fl (real_of_int s * prize + prize) = real_of_int s * prize + prize"
      by (simp only: s1)
    from press_loop_upper[OF "1.prems"(1) "1.prems"(5) "1.prems"(6) rep, of th maxPresses 1 calls] pl
    have w1: "w' \<le> real_of_int (s + 1) * prize" by (simp only: s1 fst_conv)
    from True "1.prems"(3) have b: "0 \<le> s + 1" "s + 1 \<le> sims" by simp_all
    from "1.IH"[OF True pl[symmetric] "1.prems"(1) "1.prems"(2) b w0 w1]
    show ?thesis by (simp add: simulate_loop_step[OF True pl])
  qed
qed

lemma simulate_zero_sims: "simulate u 0 th maxPresses prize = 0"
  by (simp add: simulate_def simulate_loop_done)

text \<open>
  For the program's prize \<open>100000\<close> the multiples are integers, hence doubles while they
  stay below \<open>2 ^ 53\<close>, and the bound \<open>sims * prize\<close> holds.
\<close>

lemma top_prize_multiples:
  assumes "0 \<le> k" and "k * 100000 < 2 ^ 53"
  shows "fl (real_of_int k * TOP_PRIZE) = real_of_int k * TOP_PRIZE"
proof -
  from assms have "fl (real_of_int (k * 100000)) = real_of_int (k * 100000)"
    by (intro fl_of_int) simp_all
  then show ?thesis by (simp add: TOP_PRIZE_def)
qed

lemma simulate_top_prize_bound:
  assumes "0 \<le> sims" and "sims * 100000 < 2 ^ 53"
    and "\<forall>n. 0 \<le> fl (u n * TOP_PRIZE) \<and> fl (u n * TOP_PRIZE) < TOP_PRIZE"
  shows "simulate u sims th maxPresses TOP_PRIZE \<le> real_of_int sims * TOP_PRIZE"
proof -
  have "fl (real_of_int k * TOP_PRIZE) = real_of_int k * TOP_PRIZE" if "0 \<le> k \<and> k \<le> sims" for k
  proof -
    from that have "k * 100000 \<le> sims * 100000" by simp
    with assms(2) have "k * 100000 < 2 ^ 53" by linarith
    with that show ?thesis by (intro top_prize_multiples) simp_all
  qed
  then have rep: "\<forall>k. 0 \<le> k \<and> k \<le> sims \<longrightarrow>
      fl (real_of_int k * TOP_PRIZE) = real_of_int k * TOP_PRIZE" by blast
  from simulate_loop_upper[OF assms(3) rep _ assms(1), of 0 th maxPresses 0]
  show ?thesis by (simp add: simulate_def)
qed

text \<open>The draw and the six running sums of the run on \<open>u_top\<close> with prize \<open>prize_09\<close>.\<close>

lemma top_draw: "fl (u_top n * prize_09) = 2026619832316723 / 2 ^ 51"
  using fl_eval[of "- 1" "(1 - 1 / 2 ^ 53) * (8106479329266893 / 2 ^ 53)"]
  by (simp add: u_top_def prize_09_def rne_def Let_def)

lemma top_sums:
  "fl (0 + 2026619832316723 / 2 ^ 51) = 2026619832316723 / 2 ^ 51"
  "fl (2026619832316723 / 2 ^ 51 + 2026619832316723 / 2 ^ 51) = 2026619832316723 / 2 ^ 50"
  "fl (2026619832316723 / 2 ^ 50 + 2026619832316723 / 2 ^ 51) = 6079859496950169 / 2 ^ 51"
  "fl (6079859496950169 / 2 ^ 51 + 2026619832316723 / 2 ^ 51) = 2026619832316723 / 2 ^ 49"
  "fl (2026619832316723 / 2 ^ 49 + 2026619832316723 / 2 ^ 51) = 9 / 2"
  "fl (9 / 2 + 2026619832316723 / 2 ^ 51) = 3039929748475085 / 2 ^ 49"
  using fl_eval[of "- 1" "0 + 2026619832316723 / 2 ^ 51"]
    fl_eval[of 0 "2026619832316723 / 2 ^ 51 + 2026619832316723 / 2 ^ 51"]
    fl_eval[of 1 "2026619832316723 / 2 ^ 50 + 2026619832316723 / 2 ^ 51"]
    fl_eval[of 1 "6079859496950169 / 2 ^ 51 + 2026619832316723 / 2 ^ 51"]
    fl_eval[of 2 "2026619832316723 / 2 ^ 49 + 2026619832316723 / 2 ^ 51"]
    fl_eval[of 2 "9 / 2 + 2026619832316723 / 2 ^ 51"]
  by (simp_all add: rne_def Let_def)

lemma accepted_draws_top:
  "accepted_draws u_top prize_09 calls ps = replicate (length ps) (2026619832316723 / 2 ^ 51)"
  by (induction ps arbitrary: calls) (simp_all only: accepted_draws.simps top_draw list.size replicate.simps add_Suc_right add_0_right One_nat_def)

lemma top_run: "simulate u_top 6 [0] 1 prize_09 = 3039929748475085 / 2 ^ 49"
proof -
  let ?d = "2026619832316723 / 2 ^ 51 :: real"
  from simulate_loop_trials[of 1 6 0 u_top "[0]" prize_09 0 0]
  obtain ps where len: "length ps = nat 6"
    and sim: "simulate u_top 6 [0] 1 prize_09
                = foldl (\<lambda>w d. fl (w + d)) 0 (accepted_draws u_top prize_09 0 ps)"
    by (auto simp: simulate_def)
  have six: "nat 6 = Suc (Suc (Suc (Suc (Suc (Suc 0)))))" by simp
  have "accepted_draws u_top prize_09 0 ps = replicate (length ps) ?d"
    by (rule accepted_draws_top)
  also have "\<dots> = [?d, ?d, ?d, ?d, ?d, ?d]"
    by (simp only: len six replicate.simps)
  finally have "simulate u_top 6 [0] 1 prize_09
      = foldl (\<lambda>w d. fl (w + d)) 0 [?d, ?d, ?d, ?d, ?d, ?d]"
    using sim by (simp only:)
  also have "\<dots> = 3039929748475085 / 2 ^ 49"
    by (simp only: foldl.simps top_sums)
  finally show ?thesis .
qed

text \<open>
  C9, as the code has it. The claim (for every prize, table and draws in \<open>[0, prize)\<close> the
  subtotal is at most \<open>sims * prize\<close>) fails for the rounded running sum: with the prize
  \<open>prize_09\<close>, the one-press table \<open>[0]\<close> and six draws, each the largest double below the
  prize, the subtotal is larger than \<open>6 * prize\<close>.
\<close>

theorem simulate_rounded_sum_exceeds_bound:
  "thresholds 1 prize_09 = [0]
   \<and> 0 \<le> fl (u_top 0 * prize_09) \<and> fl (u_top 0 * prize_09) < prize_09
   \<and> simulate u_top 6 [0] 1 prize_09 = 3039929748475085 / 2 ^ 49
   \<and> real_of_int 6 * prize_09 < simulate u_top 6 [0] 1 prize_09"
proof -
  have "thresholds 1 prize_09 = [0]" by (simp add: thresholds_eq_map)
  moreover have "0 \<le> fl (u_top 0 * prize_09) \<and> fl (u_top 0 * prize_09) < prize_09"
    by (simp add: top_draw) (simp add: prize_09_def)
  moreover have "real_of_int 6 * prize_09 < 3039929748475085 / 2 ^ 49"
    by (simp add: prize_09_def)
  ultimately show ?thesis by (simp only: top_run)
qed

text \<open>
  C9, amended. If \<open>sims \<ge> 0\<close> and every draw lies in \<open>[0, prize)\<close>, then for every table and
  every \<open>maxPresses\<close> the subtotal of \<^verbatim>\<open>simulate\<close> is at least \<open>0\<close>; it is at most
  \<open>sims * prize\<close> when the multiples \<open>k * prize\<close>, \<open>0 \<le> k \<le> sims\<close>, are doubles (as they
  are for the prize \<open>100000\<close> while \<open>sims * 100000 < 2 ^ 53\<close>); and \<^verbatim>\<open>simulate\<close> with
  \<open>sims = 0\<close> returns exactly \<open>0\<close>.
\<close>

theorem simulate_subtotal_bounds:
  assumes "0 \<le> sims" and "\<forall>n. 0 \<le> fl (u n * prize) \<and> fl (u n * prize) < prize"
  shows "0 \<le> simulate u sims th maxPresses prize
       \<and> ((\<forall>k. 0 \<le> k \<and> k \<le> sims \<longrightarrow> fl (real_of_int k * prize) = real_of_int k * prize)
            \<longrightarrow> simulate u sims th maxPresses prize \<le> real_of_int sims * prize)
       \<and> simulate u 0 th maxPresses prize = 0"
proof -
  have lower: "\<forall>n. 0 \<le> fl (u n * prize)" using assms(2) by blast
  have "0 \<le> simulate u sims th maxPresses prize"
    using simulate_loop_lower[OF lower, of 0 sims th maxPresses 0 0] by (simp add: simulate_def)
  moreover have "simulate u sims th maxPresses prize \<le> real_of_int sims * prize"
    if "\<forall>k. 0 \<le> k \<and> k \<le> sims \<longrightarrow> fl (real_of_int k * prize) = real_of_int k * prize"
    using simulate_loop_upper[OF assms(2) that _ assms(1), of 0 th maxPresses 0]
    by (simp add: simulate_def)
  ultimately show ?thesis by (simp add: simulate_zero_sims)
qed

theorem simulate_subtotal_bounds_witness:
  "(0::int) \<le> 2
   \<and> (\<forall>n. 0 \<le> fl (u_demo n * 100000) \<and> fl (u_demo n * 100000) < 100000)
   \<and> fl (real_of_int 0 * 100000) = real_of_int 0 * 100000
   \<and> fl (real_of_int 1 * 100000) = real_of_int 1 * 100000
   \<and> fl (real_of_int 2 * 100000) = real_of_int 2 * 100000
   \<and> 0 \<le> simulate u_demo 2 [80000, 50000, 0] 3 100000
   \<and> simulate u_demo 2 [80000, 50000, 0] 3 100000 \<le> real_of_int 2 * 100000
   \<and> simulate u_demo 0 [80000, 50000, 0] 3 100000 = 0"
proof -
  have h: "\<forall>n. 0 \<le> fl (u_demo n * 100000) \<and> fl (u_demo n * 100000) < 100000"
    by (simp add: u_demo_def fl_numeral)
  have rep: "fl (real_of_int k * 100000) = real_of_int k * 100000" if "0 \<le> k \<and> k \<le> 2" for k
  proof -
    from that have "0 \<le> k * 100000" "k * 100000 < 2 ^ 53" by simp_all
    then have "fl (real_of_int (k * 100000)) = real_of_int (k * 100000)" by (rule fl_of_int)
    then show ?thesis by simp
  qed
  then have reps: "\<forall>k. 0 \<le> k \<and> k \<le> 2 \<longrightarrow> fl (real_of_int k * 100000) = real_of_int k * 100000"
    by blast
  from simulate_subtotal_bounds[of 2 u_demo 100000 "[80000, 50000, 0]" 3, OF _ h] reps
  have "0 \<le> simulate u_demo 2 [80000, 50000, 0] 3 100000
      \<and> simulate u_demo 2 [80000, 50000, 0] 3 100000 \<le> real_of_int 2 * 100000
      \<and> simulate u_demo 0 [80000, 50000, 0] 3 100000 = 0" by simp
  with h rep[of 0] rep[of 1] rep[of 2] show ?thesis by simp
qed

section \<open>WorkDistributor: the dispatch loop\<close>

lemma dispatch_loop_eq:
  "dispatch_loop totalSims numWorkers i tasks
     = tasks @ map (\<lambda>i. \<lfloor>fl (real_of_int (simsPerWorker totalSims numWorkers
                          + (if i = 0 then extra totalSims numWorkers else 0)))\<rfloor>)
                 [i..numWorkers - 1]"
proof (induction totalSims numWorkers i tasks rule: dispatch_loop.induct)
  case (1 totalSims numWorkers i tasks)
  show ?case
  proof (cases "i < numWorkers")
    case True
    then have "[i..numWorkers - 1] = i # [i + 1..numWorkers - 1]" by (simp add: upto_rec1)
    with True "1.IH" show ?thesis
      by (simp add: dispatch_loop.simps[of totalSims numWorkers i tasks])
  next
    case False
    then show ?thesis by (simp add: dispatch_loop.simps[of totalSims numWorkers i tasks])
  qed
qed

text \<open>
  Below \<open>2 ^ 53\<close> the rounded quotient has the right floor, and the sum of the counts is
  not rounded.
\<close>

lemma simsPerWorker_div:
  "0 \<le> totalSims \<Longrightarrow> totalSims < 2 ^ 53 \<Longrightarrow> 1 \<le> numWorkers \<Longrightarrow>
   simsPerWorker totalSims numWorkers = totalSims div numWorkers"
  by (simp add: simsPerWorker_def floor_fl_divide)

lemma floor_fl_of_int:
  "0 \<le> n \<Longrightarrow> n < 2 ^ 53 \<Longrightarrow> \<lfloor>fl (real_of_int n)\<rfloor> = n"
  by (simp add: fl_of_int)

lemma extra_mod:
  "0 \<le> totalSims \<Longrightarrow> 0 < numWorkers \<Longrightarrow> extra totalSims numWorkers = totalSims mod numWorkers"
  by (simp add: extra_def smod_int_alt_def sgn_if)

lemma workerSims_eq:
  assumes "0 \<le> totalSims" and "totalSims < 2 ^ 53" and "1 \<le> numWorkers"
  shows "workerSims totalSims numWorkers
     = (totalSims div numWorkers + totalSims mod numWorkers)
         # replicate (nat (numWorkers - 1)) (totalSims div numWorkers)"
proof -
  let ?q = "totalSims div numWorkers" and ?r = "totalSims mod numWorkers"
  from assms have up: "[0..numWorkers - 1] = 0 # [1..numWorkers - 1]" by (simp add: upto_rec1)
  have q0: "0 \<le> ?q" using assms by (simp add: pos_imp_zdiv_nonneg_iff)
  have r0: "0 \<le> ?r" using assms by simp
  have split: "?q * numWorkers + ?r = totalSims" by simp
  with r0 have qn: "?q * numWorkers \<le> totalSims" by linarith
  have q_le: "?q \<le> ?q * numWorkers"
    using mult_left_mono[of 1 numWorkers ?q] q0 assms(3) by simp
  with qn assms(2) have q_small: "?q < 2 ^ 53" by linarith
  from q_le split assms(2) have qr_small: "?q + ?r < 2 ^ 53" by linarith
  have first: "\<lfloor>fl (real_of_int (?q + ?r))\<rfloor> = ?q + ?r"
    using q0 r0 qr_small by (intro floor_fl_of_int) simp_all
  have other: "\<lfloor>fl (real_of_int ?q)\<rfloor> = ?q"
    using q0 q_small by (rule floor_fl_of_int)
  have "map (\<lambda>i. \<lfloor>fl (real_of_int (simsPerWorker totalSims numWorkers
                          + (if i = 0 then extra totalSims numWorkers else 0)))\<rfloor>)
            [1..numWorkers - 1]
        = map (\<lambda>i. ?q) [1..numWorkers - 1]"
    using assms other by (intro map_cong) (auto simp: simsPerWorker_div)
  then show ?thesis using assms first
    by (simp add: workerSims_def dispatch_loop_eq up simsPerWorker_div extra_mod
        map_replicate_const)
qed

lemma upto_0_4: "[0..4::int] = [0, 1, 2, 3, 4]"
  by (simp add: upto_rec1)

text \<open>
  C3, as the code has it. The claim (for every \<open>totalSims \<ge> 0\<close> the counts sum to
  \<open>totalSims\<close>) fails above \<open>2 ^ 53\<close>: for \<open>totalSims = 2 ^ 55\<close> and five workers the quotient
  \<open>7205759403792793.6\<close> is rounded to the double \<open>7205759403792794\<close> before the floor is
  taken, and the five counts sum to \<open>totalSims + 5\<close>.
\<close>

theorem workerSims_large_total_overcounts:
  "(36028797018963968::int) = 2 ^ 55
   \<and> workerSims 36028797018963968 5
       = [7205759403792797, 7205759403792794, 7205759403792794, 7205759403792794,
          7205759403792794]
   \<and> sum_list (workerSims 36028797018963968 5) = 36028797018963968 + 5"
proof -
  have q: "simsPerWorker 36028797018963968 5 = 7205759403792794"
    by (simp add: simsPerWorker_def fl_quot_big)
  have e: "extra 36028797018963968 5 = 3"
    by (simp add: extra_def smod_int_alt_def)
  have "workerSims 36028797018963968 5
       = [7205759403792797, 7205759403792794, 7205759403792794, 7205759403792794,
          7205759403792794]"
    by (simp add: workerSims_def dispatch_loop_eq upto_0_4 q e fl_numeral)
  then show ?thesis by simp
qed

text \<open>
  C3, amended. For every \<open>totalSims\<close> with \<open>0 \<le> totalSims < 2 ^ 53\<close> and every
  \<open>numWorkers \<ge> 1\<close> the dispatch loop hands out \<open>numWorkers\<close> counts: the first worker gets
  \<open>totalSims div numWorkers\<close> plus the whole remainder \<open>totalSims mod numWorkers\<close>, every
  other worker gets \<open>totalSims div numWorkers\<close>; all counts are non-negative and their sum
  is \<open>totalSims\<close>.
\<close>

theorem workerSims_partition:
  assumes "0 \<le> totalSims" and "totalSims < 2 ^ 53" and "1 \<le> numWorkers"
  shows "workerSims totalSims numWorkers
           = (totalSims div numWorkers + totalSims mod numWorkers)
               # replicate (nat (numWorkers - 1)) (totalSims div numWorkers)
       \<and> length (workerSims totalSims numWorkers) = nat numWorkers
       \<and> list_all (\<lambda>sims. 0 \<le> sims) (workerSims totalSims numWorkers)
       \<and> sum_list (workerSims totalSims numWorkers) = totalSims"
proof -
  let ?q = "totalSims div numWorkers" and ?r = "totalSims mod numWorkers"
  note eq = workerSims_eq[OF assms]
  have q: "0 \<le> ?q" using assms by (simp add: pos_imp_zdiv_nonneg_iff)
  have r: "0 \<le> ?r" using assms by simp
  have len: "length (workerSims totalSims numWorkers) = nat numWorkers"
    using assms by (simp add: eq)
  have nonneg: "list_all (\<lambda>sims. 0 \<le> sims) (workerSims totalSims numWorkers)"
    using q r by (simp add: eq list_all_iff)
  have "sum_list (workerSims totalSims numWorkers) = ?q + ?r + (numWorkers - 1) * ?q"
    using assms by (simp add: eq sum_list_replicate)
  also have "\<dots> = numWorkers * ?q + ?r" by (simp add: algebra_simps)
  also have "\<dots> = totalSims" by simp
  finally show ?thesis using eq len nonneg by simp
qed

theorem workerSims_partition_witness:
  "(0::int) \<le> 10 \<and> (10::int) < 2 ^ 53 \<and> (1::int) \<le> 3 \<and> workerSims 10 3 = [4, 3, 3]
   \<and> length (workerSims 10 3) = nat 3
   \<and> list_all (\<lambda>sims. 0 \<le> sims) (workerSims 10 3)
   \<and> sum_list (workerSims 10 3) = 10"
  using workerSims_partition[of 10 3] by (simp add: eval_nat_numeral)

section \<open>Aggregator: the message handler\<close>

subsection \<open>The handler and its iteration\<close>

lemma on_message_finished:
  "finished (on_message totalSims numWorkers th sub st) = finished st + 1"
  by (simp add: on_message_def Let_def)

lemma on_message_grandTotal:
  "grandTotal (on_message totalSims numWorkers th sub st) = grandTotal st + sub"
  by (simp add: on_message_def Let_def)

lemma on_message_printed:
  "printed (on_message totalSims numWorkers th sub st)
     = printed st @
       (if finished st + 1 = numWorkers
        then [\<lparr>rep_thresholds = th, rep_totalSims = totalSims, rep_numWorkers = numWorkers,
               rep_mean = js_div (grandTotal st + sub) (real_of_int totalSims)\<rparr>]
        else [])"
  by (simp add: on_message_def Let_def)

lemma fold_on_message_finished:
  "finished (fold (on_message totalSims numWorkers th) msgs st) = finished st + int (length msgs)"
  by (induction msgs arbitrary: st) (simp_all add: on_message_finished)

lemma fold_on_message_grandTotal:
  "grandTotal (fold (on_message totalSims numWorkers th) msgs st) = grandTotal st + sum_list msgs"
  by (induction msgs arbitrary: st) (simp_all add: on_message_grandTotal)

lemma fold_on_message_printed:
  "printed (fold (on_message totalSims numWorkers th) msgs st)
     = printed st @
       (if finished st < numWorkers \<and> numWorkers \<le> finished st + int (length msgs)
        then [\<lparr>rep_thresholds = th, rep_totalSims = totalSims, rep_numWorkers = numWorkers,
               rep_mean = js_div (grandTotal st + sum_list (take (nat (numWorkers - finished st)) msgs))
                            (real_of_int totalSims)\<rparr>]
        else [])"
proof (induction msgs arbitrary: st)
  case Nil
  show ?case by simp
next
  case (Cons sub msgs)
  let ?st' = "on_message totalSims numWorkers th sub st"
  show ?case
  proof (cases "finished st + 1 = numWorkers")
    case True
    then have "nat (numWorkers - finished st) = Suc 0" by simp
    with True show ?thesis
      by (simp add: Cons.IH on_message_finished on_message_grandTotal on_message_printed)
  next
    case False
    show ?thesis
    proof (cases "finished st < numWorkers")
      case True
      with False have "nat (numWorkers - finished st) = Suc (nat (numWorkers - (finished st + 1)))"
        by linarith
      with True False show ?thesis
        by (simp add: Cons.IH on_message_finished on_message_grandTotal on_message_printed
            add.assoc)
    next
      case False
      then show ?thesis
        by (simp add: Cons.IH on_message_finished on_message_grandTotal on_message_printed)
    qed
  qed
qed

lemma main_thread_finished:
  "finished (main_thread totalSims numWorkers msgs) = int (length msgs)"
  by (simp add: main_thread_def fold_on_message_finished initial_state_def)

lemma main_thread_printed:
  "printed (main_thread totalSims numWorkers msgs)
     = (if 0 < numWorkers \<and> numWorkers \<le> int (length msgs)
        then [\<lparr>rep_thresholds = thresholds MAX_PRESSES TOP_PRIZE, rep_totalSims = totalSims,
               rep_numWorkers = numWorkers,
               rep_mean = js_div (sum_list (take (nat numWorkers) msgs)) (real_of_int totalSims)\<rparr>]
        else [])"
  by (simp add: main_thread_def fold_on_message_printed initial_state_def)

lemma workerSims_length: "length (workerSims totalSims numWorkers) = nat numWorkers"
  by (simp add: workerSims_def dispatch_loop_eq)

lemma worker_messages_length: "length (worker_messages us totalSims numWorkers) = nat numWorkers"
  by (simp add: worker_messages_def workerSims_length)

subsection \<open>A run of two workers on the sample source\<close>

lemma f_spec_demo_values:
  "f_spec 7 * 100000 \<le> 87500" "62500 < f_spec 8 * 100000" "25000 < f_spec 9 * 100000"
  "f_spec 9 * 100000 \<le> 87500"
  by (simp_all add: eval_nat_numeral power2_eq_square)

lemma thresholds_default_demo:
  "length (thresholds MAX_PRESSES TOP_PRIZE) = 10"
  "25000 < thresholds MAX_PRESSES TOP_PRIZE ! 0"
  "thresholds MAX_PRESSES TOP_PRIZE ! 0 \<le> 87500"
  "62500 < thresholds MAX_PRESSES TOP_PRIZE ! Suc 0"
  "thresholds MAX_PRESSES TOP_PRIZE ! 2 \<le> 87500"
  using f_spec_demo_values
  by (simp_all add: MAX_PRESSES_def TOP_PRIZE_def thresholds_eq_map upto_1_10)

lemma demo_trial_first:
  "press_loop u_demo (thresholds MAX_PRESSES TOP_PRIZE) MAX_PRESSES TOP_PRIZE 1 w 0
     = (fl (w + 87500), 3)"
proof -
  let ?th = "thresholds MAX_PRESSES TOP_PRIZE"
  have "press_loop u_demo ?th MAX_PRESSES TOP_PRIZE 1 w 0
      = press_loop u_demo ?th MAX_PRESSES TOP_PRIZE (1 + 1) w (0 + 1)"
    using thresholds_default_demo
    by (intro press_loop_continue)
      (simp_all add: MAX_PRESSES_def TOP_PRIZE_def u_demo_def ge_at_def fl_numeral)
  also have "\<dots> = press_loop u_demo ?th MAX_PRESSES TOP_PRIZE (2 + 1) w (1 + 1)"
    using thresholds_default_demo press_loop_continue[of 2 MAX_PRESSES u_demo 1 TOP_PRIZE ?th w]
    by (simp add: MAX_PRESSES_def TOP_PRIZE_def u_demo_def ge_at_def fl_numeral numeral_2_eq_2)
  also have "\<dots> = (fl (w + 87500), 3)"
    using thresholds_default_demo press_loop_stop[of 3 MAX_PRESSES u_demo 2 TOP_PRIZE ?th w]
    by (simp add: MAX_PRESSES_def TOP_PRIZE_def u_demo_def ge_at_def fl_numeral numeral_2_eq_2
        numeral_3_eq_3)
  finally show ?thesis .
qed

lemma demo_trial_second:
  "press_loop u_demo (thresholds MAX_PRESSES TOP_PRIZE) MAX_PRESSES TOP_PRIZE 1 w 3
     = (fl (w + 87500), 4)"
  using thresholds_default_demo
    press_loop_stop[of 1 MAX_PRESSES u_demo 3 TOP_PRIZE "thresholds MAX_PRESSES TOP_PRIZE" w]
  by (simp add: MAX_PRESSES_def TOP_PRIZE_def u_demo_def ge_at_def fl_numeral)

lemma demo_worker_1: "worker u_demo 1 MAX_PRESSES TOP_PRIZE = 87500"
  using simulate_loop_step[OF _ demo_trial_first, of 0 1 0]
  by (simp add: worker_def simulate_def simulate_loop_done fl_numeral)

lemma demo_worker_2: "worker u_demo 2 MAX_PRESSES TOP_PRIZE = 175000"
  using simulate_loop_step[OF _ demo_trial_first, of 0 2 0]
    simulate_loop_step[OF _ demo_trial_second, of 1 2 "fl (0 + 87500)"]
  by (simp add: worker_def simulate_def simulate_loop_done fl_numeral)

lemma demo_worker_messages: "worker_messages us_demo 3 2 = [175000, 87500]"
  using workerSims_eq[of 3 2]
  by (simp add: worker_messages_def us_demo_def demo_worker_1 demo_worker_2 eval_nat_numeral)

lemma sum_list_mset_eq:
  fixes xs ys :: "real list"
  shows "mset xs = mset ys \<Longrightarrow> sum_list xs = sum_list ys"
  by (metis sum_mset_sum_list)

text \<open>
  C8. Let \<open>numWorkers \<ge> 1\<close>, and let \<open>msgs\<close> be the workers' messages in any order of
  arrival (each worker posts its one subtotal, and each message is delivered once). Then
  exactly \<open>numWorkers\<close> messages arrive; after the first \<open>n\<close> of them \<^verbatim>\<open>finished\<close> is \<open>n\<close>,
  and the results block has run once if \<open>n = numWorkers\<close> and not at all before, that is, it
  runs exactly once, with the message that makes the counter equal to \<open>numWorkers\<close>. The
  report it prints carries \<open>mean = grandTotal / totalSims\<close>, where \<open>grandTotal\<close> is the sum
  of all the workers' subtotals whatever the order of arrival.
\<close>

theorem completion_signals_and_single_report:
  assumes "1 \<le> numWorkers"
    and "mset msgs = mset (worker_messages us totalSims numWorkers)"
  shows "length msgs = nat numWorkers
       \<and> (\<forall>n \<le> length msgs.
            finished (main_thread totalSims numWorkers (take n msgs)) = int n
          \<and> length (printed (main_thread totalSims numWorkers (take n msgs)))
              = (if int n = numWorkers then 1 else 0))
       \<and> printed (main_thread totalSims numWorkers msgs)
           = [\<lparr>rep_thresholds = thresholds MAX_PRESSES TOP_PRIZE, rep_totalSims = totalSims,
               rep_numWorkers = numWorkers,
               rep_mean = js_div (sum_list (worker_messages us totalSims numWorkers))
                            (real_of_int totalSims)\<rparr>]"
proof -
  from assms(2) have "length msgs = length (worker_messages us totalSims numWorkers)"
    by (rule mset_eq_length)
  then have len: "length msgs = nat numWorkers" by (simp add: worker_messages_length)
  have steps: "finished (main_thread totalSims numWorkers (take n msgs)) = int n
          \<and> length (printed (main_thread totalSims numWorkers (take n msgs)))
              = (if int n = numWorkers then 1 else 0)" if "n \<le> length msgs" for n
    using that assms(1) len by (auto simp add: main_thread_finished main_thread_printed)
  have "sum_list msgs = sum_list (worker_messages us totalSims numWorkers)"
    using assms(2) by (rule sum_list_mset_eq)
  then have "printed (main_thread totalSims numWorkers msgs)
           = [\<lparr>rep_thresholds = thresholds MAX_PRESSES TOP_PRIZE, rep_totalSims = totalSims,
               rep_numWorkers = numWorkers,
               rep_mean = js_div (sum_list (worker_messages us totalSims numWorkers))
                            (real_of_int totalSims)\<rparr>]"
    using assms(1) len by (simp add: main_thread_printed)
  with len steps show ?thesis by simp
qed

theorem completion_signals_and_single_report_witness:
  "(1::int) \<le> 2
   \<and> mset [87500, 175000] = mset (worker_messages us_demo 3 2)
   \<and> length [87500, 175000 :: real] = nat 2
   \<and> printed (main_thread 3 2 []) = []
   \<and> printed (main_thread 3 2 [87500]) = []
   \<and> finished (main_thread 3 2 [87500]) = 1
   \<and> finished (main_thread 3 2 [87500, 175000]) = 2
   \<and> printed (main_thread 3 2 [87500, 175000])
       = [\<lparr>rep_thresholds = thresholds MAX_PRESSES TOP_PRIZE, rep_totalSims = 3,
           rep_numWorkers = 2, rep_mean = Num 87500\<rparr>]"
proof -
  have h: "mset [87500, 175000] = mset (worker_messages us_demo 3 2)"
    by (simp add: demo_worker_messages)
  note t = completion_signals_and_single_report[of 2 "[87500, 175000]" us_demo 3, OF _ h]
  from t have a: "\<forall>n \<le> 2. finished (main_thread 3 2 (take n [87500, 175000])) = int n
          \<and> length (printed (main_thread 3 2 (take n [87500, 175000])))
              = (if int n = 2 then 1 else 0)" by simp
  from a[rule_format, of 0] a[rule_format, of 1] a[rule_format, of 2] t h
  show ?thesis by (simp add: demo_worker_messages js_div_def)
qed

subsection \<open>A run with no trials\<close>

lemma worker_messages_zero_trials:
  assumes "1 \<le> numWorkers"
  shows "worker_messages us 0 numWorkers = replicate (nat numWorkers) 0"
proof -
  have "workerSims 0 numWorkers = 0 # replicate (nat (numWorkers - 1)) 0"
    using workerSims_eq[of 0 numWorkers] assms by simp
  also have "\<dots> = replicate (nat numWorkers) 0"
    using assms by (simp add: replicate_Suc[symmetric] del: replicate_Suc) 
  finally have ws: "workerSims 0 numWorkers = replicate (nat numWorkers) 0" .
  have "\<forall>x \<in> set (enumerate 0 (workerSims 0 numWorkers)). snd x = 0"
    by (auto simp: ws in_set_enumerate_eq)
  then have "map (\<lambda>(i, sims). worker (us i) sims MAX_PRESSES TOP_PRIZE) (enumerate 0 (workerSims 0 numWorkers))
      = map (\<lambda>x. 0) (enumerate 0 (workerSims 0 numWorkers))"
    by (intro map_cong) (auto simp: worker_def simulate_zero_sims)
  then show ?thesis
    by (simp add: worker_messages_def map_replicate_const ws)
qed

lemma sum_list_all_zero: "set xs \<subseteq> {0} \<Longrightarrow> sum_list xs = (0::real)"
  by (induction xs) auto

lemma zero_trials_report:
  assumes "1 \<le> numWorkers"
    and "mset msgs = mset (worker_messages us 0 numWorkers)"
  shows "printed (main_thread 0 numWorkers msgs)
           = [\<lparr>rep_thresholds = thresholds MAX_PRESSES TOP_PRIZE, rep_totalSims = 0,
               rep_numWorkers = numWorkers, rep_mean = NaN\<rparr>]"
proof -
  from assms have m: "mset msgs = mset (replicate (nat numWorkers) 0)"
    by (simp add: worker_messages_zero_trials)
  then have "length msgs = nat numWorkers" using mset_eq_length by fastforce
  moreover from m have "set msgs \<subseteq> {0}" using mset_eq_setD by fastforce
  then have "set (take (nat numWorkers) msgs) \<subseteq> {0}"
    using set_take_subset[of "nat numWorkers" msgs] by (rule order_trans[rotated])
  then have "sum_list (take (nat numWorkers) msgs) = 0"
    by (rule sum_list_all_zero)
  ultimately show ?thesis using assms(1)
    by (simp add: main_thread_printed js_div_def)
qed

text \<open>
  C4, as the code has it. The claim (a run with \<open>totalSims = 0\<close> raises a ZeroTrials error
  and returns no mean, in particular no \<open>NaN\<close>) fails: with \<open>totalSims = 0\<close> and one worker,
  the worker posts \<open>0\<close> and the results block prints a report whose mean is \<open>0 / 0 = NaN\<close>.
\<close>

theorem zero_trials_one_worker_prints_nan:
  "worker_messages us_demo 0 1 = [0]
   \<and> map rep_mean (printed (main_thread 0 1 [0])) = [NaN]"
proof -
  have w: "worker_messages us_demo 0 1 = [0]"
    using worker_messages_zero_trials[of 1 us_demo] by simp
  then have "mset [0] = mset (worker_messages us_demo 0 1)" by simp
  from zero_trials_report[OF _ this] w show ?thesis by simp
qed

text \<open>
  C4, amended. When \<open>totalSims = 0\<close> (and \<open>numWorkers \<ge> 1\<close>) the run raises no error: every
  worker is given \<open>0\<close> trials and posts the subtotal \<open>0\<close>, and once all messages have
  arrived, in any order, the results block has run once and printed a report whose mean
  is \<open>grandTotal / totalSims = 0 / 0\<close>, that is \<open>NaN\<close>.
\<close>

theorem zero_trials_reports_nan:
  assumes "1 \<le> numWorkers"
    and "mset msgs = mset (worker_messages us 0 numWorkers)"
  shows "worker_messages us 0 numWorkers = replicate (nat numWorkers) 0
       \<and> printed (main_thread 0 numWorkers msgs)
           = [\<lparr>rep_thresholds = thresholds MAX_PRESSES TOP_PRIZE, rep_totalSims = 0,
               rep_numWorkers = numWorkers, rep_mean = NaN\<rparr>]"
  using assms worker_messages_zero_trials[of numWorkers us] zero_trials_report[of numWorkers msgs us]
  by simp

theorem zero_trials_reports_nan_witness:
  "(1::int) \<le> 2
   \<and> mset [0, 0] = mset (worker_messages us_demo 0 2)
   \<and> worker_messages us_demo 0 2 = [0, 0]
   \<and> printed (main_thread 0 2 [0, 0])
       = [\<lparr>rep_thresholds = thresholds MAX_PRESSES TOP_PRIZE, rep_totalSims = 0,
           rep_numWorkers = 2, rep_mean = NaN\<rparr>]"
proof -
  have w: "worker_messages us_demo 0 2 = [0, 0]"
    using worker_messages_zero_trials[of 2 us_demo] by (simp add: numeral_2_eq_2)
  then have h: "mset [0, 0] = mset (worker_messages us_demo 0 2)" by simp
  from zero_trials_reports_nan[of 2 "[0, 0]" us_demo, OF _ h] w h
  show ?thesis by (simp add: numeral_2_eq_2)
qed

end
